theory Spec2Isabelle
  imports Main "HOL-Library.Tree" "HOL-Library.Monad_Syntax"
begin

section \<open>The node store\<close>

text \<open>
  A node pointer is an address, a natural number; the null pointer is address 0. Memory is
  a store from addresses to node structs, and following a pointer reads the store there.
  The payload pointer of a node is an optional payload: the sentinel is the node whose
  payload pointer is null. The comparison object is the default one, the order of the
  payload type.
\<close>

datatype RBColor = RED | BLACK

record 'a RBTreeNode =
  n_value :: "'a option"
  n_color :: RBColor
  n_parent :: nat
  n_leftChild :: nat
  n_rightChild :: nat

text \<open>
  The members of the tree class. The allocator is a counter: the next address it hands
  out. It never hands out an address twice, so a released node is simply never used again.
  The size is a natural number; it is decremented only after a real node was unlinked.
\<close>

record 'a RBTree =
  t_root :: nat
  t_nil :: nat
  t_size :: nat
  t_alloc :: nat
  t_heap :: "nat \<Rightarrow> 'a RBTreeNode"

definition NULL :: nat where
  "NULL = 0"

definition value_of :: "'a RBTree \<Rightarrow> nat \<Rightarrow> 'a option" where
  "value_of s p = n_value (t_heap s p)"

definition color_of :: "'a RBTree \<Rightarrow> nat \<Rightarrow> RBColor" where
  "color_of s p = n_color (t_heap s p)"

definition parent_of :: "'a RBTree \<Rightarrow> nat \<Rightarrow> nat" where
  "parent_of s p = n_parent (t_heap s p)"

definition leftChild_of :: "'a RBTree \<Rightarrow> nat \<Rightarrow> nat" where
  "leftChild_of s p = n_leftChild (t_heap s p)"

definition rightChild_of :: "'a RBTree \<Rightarrow> nat \<Rightarrow> nat" where
  "rightChild_of s p = n_rightChild (t_heap s p)"

definition set_value :: "nat \<Rightarrow> 'a option \<Rightarrow> 'a RBTree \<Rightarrow> 'a RBTree" where
  "set_value p v s = s\<lparr>t_heap := (t_heap s)(p := (t_heap s p)\<lparr>n_value := v\<rparr>)\<rparr>"

definition set_color :: "nat \<Rightarrow> RBColor \<Rightarrow> 'a RBTree \<Rightarrow> 'a RBTree" where
  "set_color p c s = s\<lparr>t_heap := (t_heap s)(p := (t_heap s p)\<lparr>n_color := c\<rparr>)\<rparr>"

definition set_parent :: "nat \<Rightarrow> nat \<Rightarrow> 'a RBTree \<Rightarrow> 'a RBTree" where
  "set_parent p q s = s\<lparr>t_heap := (t_heap s)(p := (t_heap s p)\<lparr>n_parent := q\<rparr>)\<rparr>"

definition set_leftChild :: "nat \<Rightarrow> nat \<Rightarrow> 'a RBTree \<Rightarrow> 'a RBTree" where
  "set_leftChild p q s = s\<lparr>t_heap := (t_heap s)(p := (t_heap s p)\<lparr>n_leftChild := q\<rparr>)\<rparr>"

definition set_rightChild :: "nat \<Rightarrow> nat \<Rightarrow> 'a RBTree \<Rightarrow> 'a RBTree" where
  "set_rightChild p q s = s\<lparr>t_heap := (t_heap s)(p := (t_heap s p)\<lparr>n_rightChild := q\<rparr>)\<rparr>"

definition set_root :: "nat \<Rightarrow> 'a RBTree \<Rightarrow> 'a RBTree" where
  "set_root p s = s\<lparr>t_root := p\<rparr>"

definition set_size :: "nat \<Rightarrow> 'a RBTree \<Rightarrow> 'a RBTree" where
  "set_size n s = s\<lparr>t_size := n\<rparr>"

section \<open>Construction\<close>

definition allocate :: "'a RBTree \<Rightarrow> nat \<times> 'a RBTree" where
  "allocate s = (t_alloc s, s\<lparr>t_alloc := Suc (t_alloc s)\<rparr>)"

definition make_nil :: "'a RBTree \<Rightarrow> nat \<times> 'a RBTree" where
  "make_nil s =
     (let (res, s) = allocate s;
          s = set_color res BLACK s;
          s = set_leftChild res res s;
          s = set_rightChild res res s;
          s = set_parent res res s;
          s = set_value res None s
      in (res, s))"

text \<open>
  The node constructor stores the payload. Every path that links a new node assigns its
  colour and its three links, so the other fields keep what the store held.
\<close>

definition make_node :: "'a \<Rightarrow> 'a RBTree \<Rightarrow> nat \<times> 'a RBTree" where
  "make_node val s =
     (let (res, s) = allocate s;
          s = set_value res (Some val) s
      in (res, s))"

text \<open>
  The default constructor, run on a store \<open>mem\<close> of arbitrary content. Address 0 is the
  null pointer, so the allocator starts at address 1.
\<close>

definition RBTree_ctor :: "(nat \<Rightarrow> 'a RBTreeNode) \<Rightarrow> 'a RBTree" where
  "RBTree_ctor mem =
     (let s = \<lparr>t_root = NULL, t_nil = NULL, t_size = 0, t_alloc = 1, t_heap = mem\<rparr>;
          (res, s) = make_nil s;
          s = s\<lparr>t_nil := res\<rparr>
      in set_root (t_nil s) s)"

section \<open>Walks along one side\<close>

text \<open>
  The loops \<open>while (tmp->leftChild->value != NULL) tmp = tmp->leftChild\<close> and its mirror
  image. The first argument bounds the number of iterations; a walk that needs more
  returns nothing.
\<close>

fun descend_left :: "nat \<Rightarrow> 'a RBTree \<Rightarrow> nat \<Rightarrow> nat option" where
  "descend_left 0 s tmp = None"
| "descend_left (Suc fuel) s tmp =
     (if value_of s (leftChild_of s tmp) \<noteq> None
      then descend_left fuel s (leftChild_of s tmp)
      else Some tmp)"

fun descend_right :: "nat \<Rightarrow> 'a RBTree \<Rightarrow> nat \<Rightarrow> nat option" where
  "descend_right 0 s tmp = None"
| "descend_right (Suc fuel) s tmp =
     (if value_of s (rightChild_of s tmp) \<noteq> None
      then descend_right fuel s (rightChild_of s tmp)
      else Some tmp)"

definition get_begin :: "nat \<Rightarrow> 'a RBTree \<Rightarrow> nat option" where
  "get_begin fuel s = descend_left fuel s (t_root s)"

definition get_end :: "'a RBTree \<Rightarrow> nat" where
  "get_end s = t_nil s"

definition get_max_value_node :: "nat \<Rightarrow> 'a RBTree \<Rightarrow> nat option" where
  "get_max_value_node fuel s = descend_right fuel s (t_root s)"

definition empty_rb :: "'a RBTree \<Rightarrow> bool" where
  "empty_rb s = (t_size s = 0)"

definition size_rb :: "'a RBTree \<Rightarrow> nat" where
  "size_rb s = t_size s"

section \<open>Relatives\<close>

definition get_grandparent :: "'a RBTree \<Rightarrow> nat \<Rightarrow> nat" where
  "get_grandparent s node =
     (if node \<noteq> NULL \<and> parent_of s node \<noteq> NULL
      then parent_of s (parent_of s node)
      else NULL)"

definition get_uncle :: "'a RBTree \<Rightarrow> nat \<Rightarrow> nat" where
  "get_uncle s node =
     (let grand = get_grandparent s node
      in if grand = NULL then NULL
         else if leftChild_of s grand = parent_of s node then rightChild_of s grand
         else leftChild_of s grand)"

definition get_sibling :: "'a RBTree \<Rightarrow> nat \<Rightarrow> nat" where
  "get_sibling s node =
     (if node = leftChild_of s (parent_of s node)
      then rightChild_of s (parent_of s node)
      else leftChild_of s (parent_of s node))"

section \<open>Rotations\<close>

definition rotate_left :: "nat \<Rightarrow> 'a RBTree \<Rightarrow> 'a RBTree" where
  "rotate_left node s =
     (let child = rightChild_of s node;
          parent = parent_of s node;
          s = (if value_of s (leftChild_of s child) \<noteq> None
               then set_parent (leftChild_of s child) node s else s);
          s = set_rightChild node (leftChild_of s child) s;
          s = set_parent node child s;
          s = set_leftChild child node s;
          s = set_parent child parent s
      in if value_of s parent \<noteq> None
         then (if leftChild_of s parent = node
               then set_leftChild parent child s
               else set_rightChild parent child s)
         else set_root child s)"

definition rotate_right :: "nat \<Rightarrow> 'a RBTree \<Rightarrow> 'a RBTree" where
  "rotate_right node s =
     (let child = leftChild_of s node;
          parent = parent_of s node;
          s = (if value_of s (rightChild_of s child) \<noteq> None
               then set_parent (rightChild_of s child) node s else s);
          s = set_leftChild node (rightChild_of s child) s;
          s = set_parent node child s;
          s = set_rightChild child node s;
          s = set_parent child parent s
      in if value_of s parent \<noteq> None
         then (if rightChild_of s parent = node
               then set_rightChild parent child s
               else set_leftChild parent child s)
         else set_root child s)"

section \<open>Insertion\<close>

definition insert_case5 :: "nat \<Rightarrow> 'a RBTree \<Rightarrow> 'a RBTree" where
  "insert_case5 node s =
     (let grand = get_grandparent s node;
          s = set_color (parent_of s node) BLACK s;
          s = set_color grand RED s
      in if node = leftChild_of s (parent_of s node)
         then rotate_right grand s
         else rotate_left grand s)"

definition insert_case4 :: "nat \<Rightarrow> 'a RBTree \<Rightarrow> 'a RBTree" where
  "insert_case4 node s =
     (let grand = get_grandparent s node
      in if node = rightChild_of s (parent_of s node) \<and> parent_of s node = leftChild_of s grand
         then (let s = rotate_left (parent_of s node) s
               in insert_case5 (leftChild_of s node) s)
         else if node = leftChild_of s (parent_of s node) \<and> parent_of s node = rightChild_of s grand
         then (let s = rotate_right (parent_of s node) s
               in insert_case5 (rightChild_of s node) s)
         else insert_case5 node s)"

text \<open>
  The three mutually recursive cases. The only cycle goes through the recursive call of
  case 3 on the grandparent, which is where the bound is counted down.
\<close>

fun insert_case1 :: "nat \<Rightarrow> nat \<Rightarrow> 'a RBTree \<Rightarrow> 'a RBTree option"
  and insert_case2 :: "nat \<Rightarrow> nat \<Rightarrow> 'a RBTree \<Rightarrow> 'a RBTree option"
  and insert_case3 :: "nat \<Rightarrow> nat \<Rightarrow> 'a RBTree \<Rightarrow> 'a RBTree option" where
  "insert_case1 fuel node s =
     (if value_of s (parent_of s node) \<noteq> None
      then insert_case2 fuel node s
      else Some (set_color node BLACK s))"
| "insert_case2 fuel node s =
     (if color_of s (parent_of s node) = RED
      then insert_case3 fuel node s
      else Some s)"
| "insert_case3 0 node s = None"
| "insert_case3 (Suc fuel) node s =
     (let uncle = get_uncle s node
      in if value_of s uncle \<noteq> None \<and> color_of s uncle = RED
         then (let s = set_color (parent_of s node) BLACK s;
                   s = set_color uncle BLACK s;
                   grand = get_grandparent s node;
                   s = set_color grand RED s
               in insert_case1 fuel grand s)
         else Some (insert_case4 node s))"

definition check_hint :: "'a::linorder \<Rightarrow> nat \<Rightarrow> 'a RBTree \<Rightarrow> nat option" where
  "check_hint val hint s =
     (case (value_of s hint, value_of s (t_root s)) of
        (Some hv, Some rv) \<Rightarrow>
          Some (if hv < rv \<and> val < hv then hint
                else if hv < rv \<and> hv < val then t_root s
                else if rv < hv \<and> val < hv then t_root s
                else if rv < hv \<and> hv < val then hint
                else t_root s)
      | _ \<Rightarrow> None)"

text \<open>
  The descent to the insertion slot. The result is the new store, the node the descent
  stopped at, and the flag. Reading the payload behind a null payload pointer is a failure.
\<close>

fun get_position :: "nat \<Rightarrow> nat \<Rightarrow> nat \<Rightarrow> 'a::linorder RBTree \<Rightarrow> ('a RBTree \<times> nat \<times> bool) option" where
  "get_position 0 position node s = None"
| "get_position (Suc fuel) position node s =
     (case value_of s position of
        None \<Rightarrow> Some (s, position, True)
      | Some pv \<Rightarrow>
         (case value_of s node of
            None \<Rightarrow> None
          | Some nv \<Rightarrow>
             if nv < pv then
               (if value_of s (leftChild_of s position) = None
                then (let s = set_leftChild position node s;
                          s = set_parent node position s;
                          s = set_leftChild node (t_nil s) s;
                          s = set_rightChild node (t_nil s) s;
                          s = set_color node RED s
                      in Some (s, position, True))
                else get_position fuel (leftChild_of s position) node s)
             else if pv < nv then
               (if value_of s (rightChild_of s position) = None
                then (let s = set_rightChild position node s;
                          s = set_parent node position s;
                          s = set_leftChild node (t_nil s) s;
                          s = set_rightChild node (t_nil s) s;
                          s = set_color node RED s
                      in Some (s, position, True))
                else get_position fuel (rightChild_of s position) node s)
             else Some (s, position, False)))"

text \<open>
  \<open>insert_rb\<close> is the member \<open>insert\<close>. It returns the new store with the pair of the source: a node and the created
  flag. The hint is a node pointer, null when the caller gives none.
\<close>

definition insert_rb :: "nat \<Rightarrow> 'a::linorder \<Rightarrow> nat \<Rightarrow> 'a RBTree \<Rightarrow> ('a RBTree \<times> nat \<times> bool) option" where
  "insert_rb fuel val hint s =
     (let (new_node, s) = make_node val s;
          position = t_root s
      in if t_size s = 0 then
           (let s = set_root new_node s;
                s = set_leftChild (t_root s) (t_nil s) s;
                s = set_rightChild (t_root s) (t_nil s) s;
                s = set_parent (t_root s) (t_nil s) s;
                s = set_color (t_root s) BLACK s;
                s = set_parent (t_nil s) (t_root s) s;
                s = set_size (t_size s + 1) s
            in Some (s, t_root s, True))
         else do {
           position \<leftarrow> (if hint \<noteq> NULL \<and> value_of s hint \<noteq> None
                        then check_hint val hint s else Some position);
           (s, is_valid) \<leftarrow> get_position fuel position new_node s;
           if snd is_valid = False then Some (s, is_valid)
           else do {
             s \<leftarrow> insert_case1 fuel new_node s;
             let s = set_size (t_size s + 1) s;
             m \<leftarrow> get_max_value_node fuel s;
             let s = set_parent (t_nil s) m s;
             Some (s, new_node, True)
           }
         })"

section \<open>Deletion\<close>

text \<open>
  The two inner loops of \<open>replace_erase_node\<close> are the walks along one side. The result
  is the new store and the node to unlink.
\<close>

definition replace_erase_node :: "nat \<Rightarrow> nat \<Rightarrow> 'a RBTree \<Rightarrow> ('a RBTree \<times> nat) option" where
  "replace_erase_node fuel node s =
     (if value_of s (leftChild_of s node) \<noteq> None \<or> value_of s (rightChild_of s node) \<noteq> None
      then do {
        res \<leftarrow> (if value_of s (leftChild_of s node) \<noteq> None
                 then descend_right fuel s (leftChild_of s node)
                 else descend_left fuel s (rightChild_of s node));
        let tmp_parent = parent_of s node;
        let tmp_left = leftChild_of s node;
        let tmp_right = rightChild_of s node;
        let tmp_color = color_of s node;
        let s = set_leftChild node (leftChild_of s res) s;
        let s = (if value_of s (leftChild_of s res) \<noteq> None
                 then set_parent (leftChild_of s res) node s else s);
        let s = set_rightChild node (rightChild_of s res) s;
        let s = (if value_of s (rightChild_of s res) \<noteq> None
                 then set_parent (rightChild_of s res) node s else s);
        let s = (if leftChild_of s tmp_parent = node then set_leftChild tmp_parent res s
                 else if rightChild_of s tmp_parent = node then set_rightChild tmp_parent res s
                 else s);
        let s = (if res = tmp_left then
                   (let s = set_parent tmp_right res s;
                        s = set_rightChild res tmp_right s;
                        s = set_parent node res s
                    in set_leftChild res node s)
                 else if res = tmp_right then
                   (let s = set_parent tmp_left res s;
                        s = set_leftChild res tmp_left s;
                        s = set_parent node res s
                    in set_rightChild res node s)
                 else
                   (let s = set_parent tmp_left res s;
                        s = set_leftChild res tmp_left s;
                        s = set_parent tmp_right res s;
                        s = set_rightChild res tmp_right s;
                        s = set_parent node (parent_of s res) s
                    in set_rightChild (parent_of s res) node s));
        let s = set_parent res tmp_parent s;
        let s = (if value_of s (parent_of s res) = None then set_root res s else s);
        let s = set_color node (color_of s res) s;
        let s = set_color res tmp_color s;
        Some (s, node)
      }
      else Some (s, node))"

definition replace_node :: "nat \<Rightarrow> nat \<Rightarrow> 'a RBTree \<Rightarrow> 'a RBTree" where
  "replace_node node child s =
     (let s = set_parent child (parent_of s node) s
      in if leftChild_of s (parent_of s node) = node
         then set_leftChild (parent_of s node) child s
         else set_rightChild (parent_of s node) child s)"

definition delete_case6 :: "nat \<Rightarrow> 'a RBTree \<Rightarrow> 'a RBTree" where
  "delete_case6 node s =
     (let sibling = get_sibling s node;
          s = set_color sibling (color_of s (parent_of s node)) s;
          s = set_color (parent_of s node) BLACK s
      in if node = leftChild_of s (parent_of s node)
         then (let s = set_color (rightChild_of s sibling) BLACK s
               in rotate_left (parent_of s node) s)
         else (let s = set_color (leftChild_of s sibling) BLACK s
               in rotate_right (parent_of s node) s))"

definition delete_case5 :: "nat \<Rightarrow> 'a RBTree \<Rightarrow> 'a RBTree" where
  "delete_case5 node s =
     (let sibling = get_sibling s node;
          s = (if color_of s sibling = BLACK then
                 (if node = leftChild_of s (parent_of s node)
                     \<and> color_of s (rightChild_of s sibling) = BLACK
                     \<and> color_of s (leftChild_of s sibling) = RED
                  then (let s = set_color sibling RED s;
                            s = set_color (leftChild_of s sibling) BLACK s
                        in rotate_right sibling s)
                  else if node = rightChild_of s (parent_of s node)
                     \<and> color_of s (leftChild_of s sibling) = BLACK
                     \<and> color_of s (rightChild_of s sibling) = RED
                  then (let s = set_color sibling RED s;
                            s = set_color (rightChild_of s sibling) BLACK s
                        in rotate_left sibling s)
                  else s)
               else s)
      in delete_case6 node s)"

definition delete_case4 :: "nat \<Rightarrow> 'a RBTree \<Rightarrow> 'a RBTree" where
  "delete_case4 node s =
     (let sibling = get_sibling s node
      in if color_of s (parent_of s node) = RED \<and> color_of s sibling = BLACK
            \<and> color_of s (leftChild_of s sibling) = BLACK
            \<and> color_of s (rightChild_of s sibling) = BLACK
         then (let s = set_color sibling RED s
               in set_color (parent_of s node) BLACK s)
         else delete_case5 node s)"

text \<open>
  The three mutually recursive cases; the bound is counted down at the recursive call of
  case 3 on the parent.
\<close>

fun delete_case1 :: "nat \<Rightarrow> nat \<Rightarrow> 'a RBTree \<Rightarrow> 'a RBTree option"
  and delete_case2 :: "nat \<Rightarrow> nat \<Rightarrow> 'a RBTree \<Rightarrow> 'a RBTree option"
  and delete_case3 :: "nat \<Rightarrow> nat \<Rightarrow> 'a RBTree \<Rightarrow> 'a RBTree option" where
  "delete_case1 fuel node s =
     (if value_of s (parent_of s node) \<noteq> None
      then delete_case2 fuel node s
      else Some s)"
| "delete_case2 fuel node s =
     (let sibling = get_sibling s node;
          s = (if color_of s sibling = RED then
                 (let s = set_color (parent_of s node) RED s;
                      s = set_color sibling BLACK s
                  in if node = leftChild_of s (parent_of s node)
                     then rotate_left (parent_of s node) s
                     else rotate_right (parent_of s node) s)
               else s)
      in delete_case3 fuel node s)"
| "delete_case3 0 node s = None"
| "delete_case3 (Suc fuel) node s =
     (let sibling = get_sibling s node
      in if color_of s (parent_of s node) = BLACK \<and> color_of s sibling = BLACK
            \<and> color_of s (leftChild_of s sibling) = BLACK
            \<and> color_of s (rightChild_of s sibling) = BLACK
         then (let s = set_color sibling RED s
               in delete_case1 fuel (parent_of s node) s)
         else Some (delete_case4 node s))"

text \<open>
  \<open>erase\<close> returns the new store and the count. Releasing the unlinked node leaves the
  store as it is.
\<close>

definition erase :: "nat \<Rightarrow> nat \<Rightarrow> 'a RBTree \<Rightarrow> ('a RBTree \<times> nat) option" where
  "erase fuel node s =
     (if value_of s node = None then Some (s, 0)
      else do {
        (s, target) \<leftarrow> replace_erase_node fuel node s;
        let child = (if value_of s (rightChild_of s target) = None
                     then leftChild_of s target else rightChild_of s target);
        let s = replace_node target child s;
        s \<leftarrow> (if color_of s target = BLACK
               then (if color_of s child = RED
                     then Some (set_color child BLACK s)
                     else delete_case1 fuel child s)
               else Some s);
        let s = set_size (t_size s - 1) s;
        let s = (if value_of s (parent_of s target) = None then set_root (t_nil s) s else s);
        m \<leftarrow> get_max_value_node fuel s;
        let s = set_parent (t_nil s) m s;
        Some (s, 1)
      })"

section \<open>Clearing and copying\<close>

text \<open>
  \<open>clear\<close> with its default argument: a null node stands for the root. Destroying a node
  leaves the store as it is.
\<close>

fun clear :: "nat \<Rightarrow> nat \<Rightarrow> 'a RBTree \<Rightarrow> 'a RBTree option" where
  "clear 0 node s = None"
| "clear (Suc fuel) node s =
     (let node = (if node = NULL then t_root s else node)
      in do {
        s \<leftarrow> (if value_of s (leftChild_of s node) \<noteq> None
               then do {
                 s \<leftarrow> clear fuel (leftChild_of s node) s;
                 Some (set_leftChild node (t_nil s) s)
               }
               else Some s);
        s \<leftarrow> (if value_of s (rightChild_of s node) \<noteq> None
               then do {
                 s \<leftarrow> clear fuel (rightChild_of s node) s;
                 Some (set_rightChild node (t_nil s) s)
               }
               else Some s);
        Some (if value_of s node \<noteq> None
              then (let s = (if node = t_root s then set_root (t_nil s) s else s)
                    in set_size (t_size s - 1) s)
              else s)
      })"

text \<open>
  \<open>copy_node\<close> is the overload of \<open>copy\<close> that takes a node of the other tree \<open>x\<close>, which
  is only read; \<open>copy\<close> is the overload that takes the other tree.
\<close>

fun copy_node :: "nat \<Rightarrow> 'a RBTree \<Rightarrow> nat \<Rightarrow> 'a::linorder RBTree \<Rightarrow> 'a RBTree option" where
  "copy_node 0 x node s = None"
| "copy_node (Suc fuel) x node s =
     (case value_of x node of
        None \<Rightarrow> Some s
      | Some v \<Rightarrow> do {
          (s, r) \<leftarrow> insert_rb (Suc fuel) v NULL s;
          s \<leftarrow> (if value_of x (leftChild_of x node) \<noteq> None
                 then copy_node fuel x (leftChild_of x node) s else Some s);
          (if value_of x (rightChild_of x node) \<noteq> None
           then copy_node fuel x (rightChild_of x node) s else Some s)
        })"

definition copy :: "nat \<Rightarrow> 'a RBTree \<Rightarrow> 'a::linorder RBTree \<Rightarrow> 'a RBTree option" where
  "copy fuel x s = do {
     s \<leftarrow> clear fuel NULL s;
     copy_node fuel x (t_root x) s
   }"

section \<open>Search\<close>

fun find_loop :: "nat \<Rightarrow> 'a::linorder \<Rightarrow> 'a RBTree \<Rightarrow> nat \<Rightarrow> nat option" where
  "find_loop 0 val s res = None"
| "find_loop (Suc fuel) val s res =
     (case value_of s res of
        None \<Rightarrow> Some res
      | Some rv \<Rightarrow>
          if val < rv \<or> rv < val
          then (if val < rv then find_loop fuel val s (leftChild_of s res)
                else find_loop fuel val s (rightChild_of s res))
          else Some res)"

definition find_rb :: "nat \<Rightarrow> 'a::linorder \<Rightarrow> 'a RBTree \<Rightarrow> nat option" where
  "find_rb fuel val s =
     (if t_size s = 0 then Some (t_nil s) else find_loop fuel val s (t_root s))"

text \<open>
  Modelled from the spec: the increment of the ordered iterator, whose header is not among
  the sources. If a right child exists, descend to its leftmost descendant; otherwise
  ascend via parent links until arriving via a left-child edge, or reaching the sentinel.
\<close>

fun ascend :: "nat \<Rightarrow> 'a RBTree \<Rightarrow> nat \<Rightarrow> nat option" where
  "ascend 0 s node = None"
| "ascend (Suc fuel) s node =
     (let p = parent_of s node
      in if value_of s p \<noteq> None \<and> node = rightChild_of s p
         then ascend fuel s p
         else Some p)"

definition advance :: "nat \<Rightarrow> 'a RBTree \<Rightarrow> nat \<Rightarrow> nat option" where
  "advance fuel s node =
     (if value_of s (rightChild_of s node) \<noteq> None
      then descend_left fuel s (rightChild_of s node)
      else ascend fuel s node)"

text \<open>
  The scans of \<open>lower_bound\<close> and \<open>upper_bound\<close>: \<open>it\<close> is the node under the iterator,
  compared with the end position by identity.
\<close>

fun lower_bound_loop :: "nat \<Rightarrow> 'a::linorder \<Rightarrow> 'a RBTree \<Rightarrow> nat \<Rightarrow> nat option" where
  "lower_bound_loop 0 val s it = None"
| "lower_bound_loop (Suc fuel) val s it =
     (if it \<noteq> get_end s then
        (case value_of s it of
           None \<Rightarrow> None
         | Some v \<Rightarrow>
             if v < val
             then do { it \<leftarrow> advance (Suc fuel) s it; lower_bound_loop fuel val s it }
             else Some it)
      else Some it)"

definition lower_bound :: "nat \<Rightarrow> 'a::linorder \<Rightarrow> 'a RBTree \<Rightarrow> nat option" where
  "lower_bound fuel val s = do {
     it \<leftarrow> get_begin fuel s;
     lower_bound_loop fuel val s it
   }"

fun upper_bound_loop :: "nat \<Rightarrow> 'a::linorder \<Rightarrow> 'a RBTree \<Rightarrow> nat \<Rightarrow> nat option" where
  "upper_bound_loop 0 val s it = None"
| "upper_bound_loop (Suc fuel) val s it =
     (if it \<noteq> get_end s then
        (case value_of s it of
           None \<Rightarrow> None
         | Some v \<Rightarrow>
             if \<not> val < v
             then do { it \<leftarrow> advance (Suc fuel) s it; upper_bound_loop fuel val s it }
             else Some it)
      else Some it)"

definition upper_bound :: "nat \<Rightarrow> 'a::linorder \<Rightarrow> 'a RBTree \<Rightarrow> nat option" where
  "upper_bound fuel val s = do {
     it \<leftarrow> get_begin fuel s;
     upper_bound_loop fuel val s it
   }"

section \<open>Trees of addresses\<close>

text \<open>
  The shape of the linked structure is a binary tree of node addresses. A context is the
  path from a position up to the root: each frame holds the node on the path and the
  subtree on its other side.
\<close>

datatype frame = InL nat "nat tree" | InR "nat tree" nat

fun fnode :: "frame \<Rightarrow> nat" where
  "fnode (InL a r) = a"
| "fnode (InR l a) = a"

fun fsib :: "frame \<Rightarrow> nat tree" where
  "fsib (InL a r) = r"
| "fsib (InR l a) = l"

fun plug :: "frame list \<Rightarrow> nat tree \<Rightarrow> nat tree" where
  "plug [] t = t"
| "plug (InL a r # c) t = plug c \<langle>t, a, r\<rangle>"
| "plug (InR l a # c) t = plug c \<langle>l, a, t\<rangle>"

fun cleft :: "frame list \<Rightarrow> nat list" where
  "cleft [] = []"
| "cleft (InL a r # c) = cleft c"
| "cleft (InR l a # c) = cleft c @ inorder l @ [a]"

fun cright :: "frame list \<Rightarrow> nat list" where
  "cright [] = []"
| "cright (InL a r # c) = a # inorder r @ cright c"
| "cright (InR l a # c) = cright c"

fun rootp :: "nat \<Rightarrow> nat tree \<Rightarrow> nat" where
  "rootp nl Leaf = nl"
| "rootp nl \<langle>l, a, r\<rangle> = a"

fun cpar :: "nat \<Rightarrow> frame list \<Rightarrow> nat" where
  "cpar nl [] = nl"
| "cpar nl (f # c) = fnode f"

fun is_tree :: "nat \<Rightarrow> (nat \<Rightarrow> 'a option) \<Rightarrow> (nat \<Rightarrow> nat) \<Rightarrow> (nat \<Rightarrow> nat) \<Rightarrow> (nat \<Rightarrow> nat) \<Rightarrow> nat \<Rightarrow> nat tree \<Rightarrow> bool" where
  "is_tree nl V P L R par Leaf = True"
| "is_tree nl V P L R par \<langle>l, a, r\<rangle> =
     (V a \<noteq> None \<and> a \<noteq> nl \<and> P a = par \<and> L a = rootp nl l \<and> R a = rootp nl r
      \<and> is_tree nl V P L R a l \<and> is_tree nl V P L R a r)"

fun ctop :: "nat \<Rightarrow> frame list \<Rightarrow> nat" where
  "ctop h [] = h"
| "ctop h (f # c) = ctop (fnode f) c"

fun is_seg :: "nat \<Rightarrow> (nat \<Rightarrow> 'a option) \<Rightarrow> (nat \<Rightarrow> nat) \<Rightarrow> (nat \<Rightarrow> nat) \<Rightarrow> (nat \<Rightarrow> nat) \<Rightarrow> nat \<Rightarrow> frame list \<Rightarrow> nat \<Rightarrow> bool" where
  "is_seg nl V P L R tp [] h = True"
| "is_seg nl V P L R tp (InL a r # c) h =
     (V a \<noteq> None \<and> a \<noteq> nl \<and> L a = h \<and> P a = cpar tp c \<and> R a = rootp nl r
      \<and> is_tree nl V P L R a r \<and> is_seg nl V P L R tp c a)"
| "is_seg nl V P L R tp (InR l a # c) h =
     (V a \<noteq> None \<and> a \<noteq> nl \<and> R a = h \<and> P a = cpar tp c \<and> L a = rootp nl l
      \<and> is_tree nl V P L R a l \<and> is_seg nl V P L R tp c a)"

text \<open>
  The store holds the tree \<open>plug c t\<close>, seen from the position below the context \<open>c\<close>:
  links and payload pointers of the nodes, no node twice, and the sentinel's own fields.
\<close>

definition shape :: "'a RBTree \<Rightarrow> frame list \<Rightarrow> nat tree \<Rightarrow> bool" where
  "shape s c t \<longleftrightarrow>
     t_root s = ctop (rootp (t_nil s) t) c
     \<and> is_seg (t_nil s) (value_of s) (parent_of s) (leftChild_of s) (rightChild_of s) (t_nil s) c
       (rootp (t_nil s) t)
     \<and> is_tree (t_nil s) (value_of s) (parent_of s) (leftChild_of s) (rightChild_of s)
       (cpar (t_nil s) c) t
     \<and> distinct (cleft c @ inorder t @ cright c)
     \<and> value_of s (t_nil s) = None
     \<and> leftChild_of s (t_nil s) = t_nil s
     \<and> rightChild_of s (t_nil s) = t_nil s"

definition wf :: "'a RBTree \<Rightarrow> nat tree \<Rightarrow> bool" where
  "wf s t \<longleftrightarrow>
     shape s [] t
     \<and> (\<forall>a \<in> set_tree t. a < t_alloc s \<and> a \<noteq> NULL)
     \<and> t_nil s < t_alloc s \<and> t_nil s \<noteq> NULL"

fun rcol :: "(nat \<Rightarrow> RBColor) \<Rightarrow> nat tree \<Rightarrow> RBColor" where
  "rcol col Leaf = BLACK"
| "rcol col \<langle>l, a, r\<rangle> = col a"

fun invc :: "(nat \<Rightarrow> RBColor) \<Rightarrow> nat tree \<Rightarrow> bool" where
  "invc col Leaf = True"
| "invc col \<langle>l, a, r\<rangle> =
     ((col a = RED \<longrightarrow> rcol col l = BLACK \<and> rcol col r = BLACK) \<and> invc col l \<and> invc col r)"

fun bh :: "(nat \<Rightarrow> RBColor) \<Rightarrow> nat tree \<Rightarrow> nat" where
  "bh col Leaf = 0"
| "bh col \<langle>l, a, r\<rangle> = bh col l + (if col a = BLACK then 1 else 0)"

fun invh :: "(nat \<Rightarrow> RBColor) \<Rightarrow> nat tree \<Rightarrow> bool" where
  "invh col Leaf = True"
| "invh col \<langle>l, a, r\<rangle> = (bh col l = bh col r \<and> invh col l \<and> invh col r)"

fun cinvc :: "(nat \<Rightarrow> RBColor) \<Rightarrow> frame list \<Rightarrow> bool" where
  "cinvc col [] = True"
| "cinvc col (f # c) =
     (invc col (fsib f)
      \<and> (col (fnode f) = RED \<longrightarrow> rcol col (fsib f) = BLACK \<and> (c \<noteq> [] \<longrightarrow> col (fnode (hd c)) = BLACK))
      \<and> cinvc col c)"

fun cinvh :: "(nat \<Rightarrow> RBColor) \<Rightarrow> frame list \<Rightarrow> nat \<Rightarrow> bool" where
  "cinvh col [] h = True"
| "cinvh col (f # c) h =
     (invh col (fsib f) \<and> bh col (fsib f) = h
      \<and> cinvh col c (h + (if col (fnode f) = BLACK then 1 else 0)))"

definition key_of :: "'a RBTree \<Rightarrow> nat \<Rightarrow> 'a" where
  "key_of s a = the (value_of s a)"


text \<open>
  The red-black tree held by the store: shape, size, colours, order of the payloads, and
  the sentinel's parent field at the last node.
\<close>

definition valid :: "'a::linorder RBTree \<Rightarrow> nat tree \<Rightarrow> bool" where
  "valid s t \<longleftrightarrow>
     wf s t \<and> t_size s = size t
     \<and> invc (color_of s) t \<and> invh (color_of s) t \<and> rcol (color_of s) t = BLACK
     \<and> color_of s (t_nil s) = BLACK
     \<and> sorted_wrt (<) (map (key_of s) (inorder t))
     \<and> (t \<noteq> Leaf \<longrightarrow> parent_of s (t_nil s) = last (inorder t))"


text \<open>What the rebalancing after an insertion or a removal leaves.\<close>

definition fix_post :: "'a RBTree \<Rightarrow> 'a RBTree \<Rightarrow> nat list \<Rightarrow> bool" where
  "fix_post s s' xs \<longleftrightarrow>
     (\<exists>T'. shape s' [] T' \<and> inorder T' = xs
        \<and> invc (color_of s') T' \<and> invh (color_of s') T' \<and> rcol (color_of s') T' = BLACK)
     \<and> value_of s' = value_of s \<and> t_nil s' = t_nil s \<and> t_size s' = t_size s
     \<and> t_alloc s' = t_alloc s \<and> color_of s' (t_nil s) = BLACK"


text \<open>What the descent of \<open>get_position\<close> leaves when it links the new node.\<close>

definition pos_post :: "'a::linorder RBTree \<Rightarrow> 'a RBTree \<Rightarrow> nat \<Rightarrow> 'a \<Rightarrow> frame list \<Rightarrow> bool" where
  "pos_post s s' n v c' \<longleftrightarrow>
     c' \<noteq> [] \<and> shape s' c' \<langle>Leaf, n, Leaf\<rangle>
     \<and> color_of s' = (color_of s)(n := RED) \<and> value_of s' = value_of s
     \<and> t_nil s' = t_nil s \<and> t_size s' = t_size s \<and> t_alloc s' = t_alloc s
     \<and> (\<forall>a \<in> set (cleft c'). key_of s a < v) \<and> (\<forall>a \<in> set (cright c'). v < key_of s a)"


text \<open>
  Reading the tree off the store, from a node down; the first argument bounds the depth.
\<close>

fun tree_of :: "nat \<Rightarrow> 'a RBTree \<Rightarrow> nat \<Rightarrow> nat tree option" where
  "tree_of 0 s p = None"
| "tree_of (Suc k) s p =
     (if value_of s p = None then Some Leaf
      else case tree_of k s (leftChild_of s p) of
             None \<Rightarrow> None
           | Some l \<Rightarrow>
               (case tree_of k s (rightChild_of s p) of
                  None \<Rightarrow> None
                | Some r \<Rightarrow> Some \<langle>l, p, r\<rangle>))"

definition keys_of :: "nat \<Rightarrow> 'a RBTree \<Rightarrow> 'a list option" where
  "keys_of fuel s = map_option (\<lambda>t. map (key_of s) (inorder t)) (tree_of fuel s (t_root s))"

text \<open>
  The range insertion of the map wrapper: the values are inserted one after the other,
  without a hint.
\<close>

fun insert_range :: "nat \<Rightarrow> 'a::linorder list \<Rightarrow> 'a RBTree \<Rightarrow> 'a RBTree option" where
  "insert_range fuel [] s = Some s"
| "insert_range fuel (v # vs) s =
     (case insert_rb fuel v NULL s of
        None \<Rightarrow> None
      | Some (s', r) \<Rightarrow> insert_range fuel vs s')"

text \<open>A store whose cells hold no payload, for the examples.\<close>

definition blank :: "nat \<Rightarrow> 'a RBTreeNode" where
  "blank = (\<lambda>_. \<lparr>n_value = None, n_color = RED, n_parent = NULL, n_leftChild = NULL,
     n_rightChild = NULL\<rparr>)"

section \<open>Stores and the trees they hold\<close>

lemma get_set [simp]:
  "value_of (set_value p v s) = (value_of s)(p := v)"
  "value_of (set_color p c s) = value_of s"
  "value_of (set_parent p q s) = value_of s"
  "value_of (set_leftChild p q s) = value_of s"
  "value_of (set_rightChild p q s) = value_of s"
  "value_of (set_root p s) = value_of s"
  "value_of (set_size n s) = value_of s"
  "color_of (set_value p v s) = color_of s"
  "color_of (set_color p c s) = (color_of s)(p := c)"
  "color_of (set_parent p q s) = color_of s"
  "color_of (set_leftChild p q s) = color_of s"
  "color_of (set_rightChild p q s) = color_of s"
  "color_of (set_root p s) = color_of s"
  "color_of (set_size n s) = color_of s"
  "parent_of (set_value p v s) = parent_of s"
  "parent_of (set_color p c s) = parent_of s"
  "parent_of (set_parent p q s) = (parent_of s)(p := q)"
  "parent_of (set_leftChild p q s) = parent_of s"
  "parent_of (set_rightChild p q s) = parent_of s"
  "parent_of (set_root p s) = parent_of s"
  "parent_of (set_size n s) = parent_of s"
  "leftChild_of (set_value p v s) = leftChild_of s"
  "leftChild_of (set_color p c s) = leftChild_of s"
  "leftChild_of (set_parent p q s) = leftChild_of s"
  "leftChild_of (set_leftChild p q s) = (leftChild_of s)(p := q)"
  "leftChild_of (set_rightChild p q s) = leftChild_of s"
  "leftChild_of (set_root p s) = leftChild_of s"
  "leftChild_of (set_size n s) = leftChild_of s"
  "rightChild_of (set_value p v s) = rightChild_of s"
  "rightChild_of (set_color p c s) = rightChild_of s"
  "rightChild_of (set_parent p q s) = rightChild_of s"
  "rightChild_of (set_leftChild p q s) = rightChild_of s"
  "rightChild_of (set_rightChild p q s) = (rightChild_of s)(p := q)"
  "rightChild_of (set_root p s) = rightChild_of s"
  "rightChild_of (set_size n s) = rightChild_of s"
  by (auto simp: fun_eq_iff value_of_def color_of_def parent_of_def leftChild_of_def rightChild_of_def
      set_value_def set_color_def set_parent_def set_leftChild_def set_rightChild_def set_root_def set_size_def)

lemma misc_set [simp]:
  "t_root (set_value p v s) = t_root s" "t_nil (set_value p v s) = t_nil s" "t_size (set_value p v s) = t_size s" "t_alloc (set_value p v s) = t_alloc s"
  "t_root (set_color p c s) = t_root s" "t_nil (set_color p c s) = t_nil s" "t_size (set_color p c s) = t_size s" "t_alloc (set_color p c s) = t_alloc s"
  "t_root (set_parent p q s) = t_root s" "t_nil (set_parent p q s) = t_nil s" "t_size (set_parent p q s) = t_size s" "t_alloc (set_parent p q s) = t_alloc s"
  "t_root (set_leftChild p q s) = t_root s" "t_nil (set_leftChild p q s) = t_nil s" "t_size (set_leftChild p q s) = t_size s" "t_alloc (set_leftChild p q s) = t_alloc s"
  "t_root (set_rightChild p q s) = t_root s" "t_nil (set_rightChild p q s) = t_nil s" "t_size (set_rightChild p q s) = t_size s" "t_alloc (set_rightChild p q s) = t_alloc s"
  "t_root (set_root p s) = p" "t_nil (set_root p s) = t_nil s" "t_size (set_root p s) = t_size s" "t_alloc (set_root p s) = t_alloc s"
  "t_root (set_size n s) = t_root s" "t_nil (set_size n s) = t_nil s" "t_size (set_size n s) = n" "t_alloc (set_size n s) = t_alloc s"
  by (simp_all add: set_value_def set_color_def set_parent_def set_leftChild_def set_rightChild_def set_root_def set_size_def)

lemma inorder_plug: "inorder (plug c t) = cleft c @ inorder t @ cright c"
  by (induction c t rule: plug.induct) auto

declare not_None_eq [simp del]

lemma is_tree_nl: "is_tree nl V P L R par t \<Longrightarrow> nl \<notin> set_tree t"
  by (induction t arbitrary: par) auto

lemma is_tree_V [simp]: "a \<notin> set_tree t \<Longrightarrow> is_tree nl (V(a := x)) P L R par t = is_tree nl V P L R par t"
  by (induction t arbitrary: par) auto

lemma is_tree_P [simp]: "a \<notin> set_tree t \<Longrightarrow> is_tree nl V (P(a := x)) L R par t = is_tree nl V P L R par t"
  by (induction t arbitrary: par) auto

lemma is_tree_L [simp]: "a \<notin> set_tree t \<Longrightarrow> is_tree nl V P (L(a := x)) R par t = is_tree nl V P L R par t"
  by (induction t arbitrary: par) auto

lemma is_tree_R [simp]: "a \<notin> set_tree t \<Longrightarrow> is_tree nl V P L (R(a := x)) par t = is_tree nl V P L R par t"
  by (induction t arbitrary: par) auto

lemma rootp_neq [simp]: "x \<notin> set_tree t \<Longrightarrow> x \<noteq> nl \<Longrightarrow> rootp nl t \<noteq> x"
  "x \<notin> set_tree t \<Longrightarrow> x \<noteq> nl \<Longrightarrow> x \<noteq> rootp nl t"
  by (cases t; auto)+

lemma rootp_nl [simp]: "nl \<notin> set_tree t \<Longrightarrow> (rootp nl t = nl) = (t = Leaf)"
  "nl \<notin> set_tree t \<Longrightarrow> (nl = rootp nl t) = (t = Leaf)"
  by (cases t; auto)+

lemma rootp_in: "t \<noteq> Leaf \<Longrightarrow> rootp nl t \<in> set_tree t"
  by (cases t) auto

lemma is_tree_plug:
  "is_tree nl V P L R tp (plug c t) \<longleftrightarrow>
     is_seg nl V P L R tp c (rootp nl t) \<and> is_tree nl V P L R (cpar tp c) t"
  by (induction c t rule: plug.induct) auto

lemma rootp_plug: "rootp nl (plug c t) = ctop (rootp nl t) c"
  by (induction c t rule: plug.induct) auto

lemma plug_append: "plug (c1 @ c2) t = plug c2 (plug c1 t)"
  by (induction c1 t rule: plug.induct) auto

lemma cleft_append: "cleft (c1 @ c2) = cleft c2 @ cleft c1"
  by (induction c1 rule: cleft.induct) auto

lemma cright_append: "cright (c1 @ c2) = cright c1 @ cright c2"
  by (induction c1 rule: cleft.induct) auto

lemma ctop_append: "ctop h (c1 @ c2) = ctop (ctop h c1) c2"
  by (induction c1 arbitrary: h) auto

lemma is_seg_V [simp]: "a \<notin> set (cleft c) \<Longrightarrow> a \<notin> set (cright c) \<Longrightarrow>
  is_seg nl (V(a := x)) P L R tp c h = is_seg nl V P L R tp c h"
  by (induction c arbitrary: h rule: cleft.induct) auto

lemma is_seg_P [simp]: "a \<notin> set (cleft c) \<Longrightarrow> a \<notin> set (cright c) \<Longrightarrow>
  is_seg nl V (P(a := x)) L R tp c h = is_seg nl V P L R tp c h"
  by (induction c arbitrary: h rule: cleft.induct) auto

lemma is_seg_L [simp]: "a \<notin> set (cleft c) \<Longrightarrow> a \<notin> set (cright c) \<Longrightarrow>
  is_seg nl V P (L(a := x)) R tp c h = is_seg nl V P L R tp c h"
  by (induction c arbitrary: h rule: cleft.induct) auto

lemma is_seg_R [simp]: "a \<notin> set (cleft c) \<Longrightarrow> a \<notin> set (cright c) \<Longrightarrow>
  is_seg nl V P L (R(a := x)) tp c h = is_seg nl V P L R tp c h"
  by (induction c arbitrary: h rule: cleft.induct) auto

lemma is_seg_nl: "is_seg nl V P L R tp c h \<Longrightarrow> nl \<notin> set (cleft c) \<and> nl \<notin> set (cright c)"
  by (induction c arbitrary: h rule: cleft.induct) (auto dest: is_tree_nl)

lemma shape_plug: "shape s [] (plug c t) = shape s c t"
  unfolding shape_def inorder_plug
  by (auto simp: is_tree_plug rootp_plug)

lemma shape_step:
  "shape s (InL a r # c) t = shape s c \<langle>t, a, r\<rangle>"
  "shape s (InR l a # c) t = shape s c \<langle>l, a, t\<rangle>"
  using shape_plug[of s "InL a r # c" t] shape_plug[of s c "\<langle>t, a, r\<rangle>"]
        shape_plug[of s "InR l a # c" t] shape_plug[of s c "\<langle>l, a, t\<rangle>"]
  by simp_all

lemma rotate_left_frame [simp]:
  "value_of (rotate_left x s) = value_of s"
  "color_of (rotate_left x s) = color_of s"
  "t_nil (rotate_left x s) = t_nil s"
  "t_size (rotate_left x s) = t_size s"
  "t_alloc (rotate_left x s) = t_alloc s"
  by (simp_all add: rotate_left_def Let_def)

lemma rotate_right_frame [simp]:
  "value_of (rotate_right x s) = value_of s"
  "color_of (rotate_right x s) = color_of s"
  "t_nil (rotate_right x s) = t_nil s"
  "t_size (rotate_right x s) = t_size s"
  "t_alloc (rotate_right x s) = t_alloc s"
  by (simp_all add: rotate_right_def Let_def)

lemma rotate_left_fields:
  "parent_of (rotate_left x s) =
     (let y = rightChild_of s x; b = leftChild_of s y;
          P0 = (if value_of s b \<noteq> None then (parent_of s)(b := x) else parent_of s)
      in P0(x := y, y := parent_of s x))"
  "leftChild_of (rotate_left x s) =
     (let y = rightChild_of s x; p = parent_of s x; L1 = (leftChild_of s)(y := x)
      in if value_of s p \<noteq> None \<and> L1 p = x then L1(p := y) else L1)"
  "rightChild_of (rotate_left x s) =
     (let y = rightChild_of s x; p = parent_of s x; L1 = (leftChild_of s)(y := x);
          R1 = (rightChild_of s)(x := leftChild_of s y)
      in if value_of s p \<noteq> None \<and> L1 p \<noteq> x then R1(p := y) else R1)"
  "t_root (rotate_left x s) =
     (if value_of s (parent_of s x) \<noteq> None then t_root s else rightChild_of s x)"
  by (auto simp add: rotate_left_def Let_def)

lemma rotate_right_fields:
  "parent_of (rotate_right x s) =
     (let y = leftChild_of s x; b = rightChild_of s y;
          P0 = (if value_of s b \<noteq> None then (parent_of s)(b := x) else parent_of s)
      in P0(x := y, y := parent_of s x))"
  "rightChild_of (rotate_right x s) =
     (let y = leftChild_of s x; p = parent_of s x; R1 = (rightChild_of s)(y := x)
      in if value_of s p \<noteq> None \<and> R1 p = x then R1(p := y) else R1)"
  "leftChild_of (rotate_right x s) =
     (let y = leftChild_of s x; p = parent_of s x; R1 = (rightChild_of s)(y := x);
          L1 = (leftChild_of s)(x := rightChild_of s y)
      in if value_of s p \<noteq> None \<and> R1 p \<noteq> x then L1(p := y) else L1)"
  "t_root (rotate_right x s) =
     (if value_of s (parent_of s x) \<noteq> None then t_root s else leftChild_of s x)"
  by (auto simp add: rotate_right_def Let_def)

lemma rotate_left_shape:
  assumes "shape s c \<langle>A, x, \<langle>B, y, C\<rangle>\<rangle>"
  shows "shape (rotate_left x s) c \<langle>\<langle>A, x, B\<rangle>, y, C\<rangle>"
  using assms unfolding shape_def
  by (cases c rule: cleft.cases; cases B;
      simp del: fun_upd_apply add: rotate_left_fields Let_def;
      (elim conjE)?; simp add: rotate_left_fields Let_def)

lemma rotate_right_shape:
  assumes "shape s c \<langle>\<langle>A, y, B\<rangle>, x, C\<rangle>"
  shows "shape (rotate_right x s) c \<langle>A, y, \<langle>B, x, C\<rangle>\<rangle>"
  using assms unfolding shape_def
  by (cases c rule: cleft.cases; cases B;
      simp del: fun_upd_apply add: rotate_right_fields Let_def;
      (elim conjE)?; simp add: rotate_right_fields Let_def)

lemma rotate_left_nilparent:
  assumes "shape s c \<langle>A, x, \<langle>B, y, C\<rangle>\<rangle>"
  shows "parent_of (rotate_left x s) (t_nil s) = parent_of s (t_nil s)"
  using assms unfolding shape_def
  by (cases B; simp add: rotate_left_fields Let_def)

lemma rotate_right_nilparent:
  assumes "shape s c \<langle>\<langle>A, y, B\<rangle>, x, C\<rangle>"
  shows "parent_of (rotate_right x s) (t_nil s) = parent_of s (t_nil s)"
  using assms unfolding shape_def
  by (cases B; simp add: rotate_right_fields Let_def)

lemma RBColor_neq [simp]: "(k \<noteq> RED) = (k = BLACK)" "(k \<noteq> BLACK) = (k = RED)"
  by (cases k; simp)+

lemma rcol_upd [simp]: "a \<notin> set_tree t \<Longrightarrow> rcol (col(a := k)) t = rcol col t"
  by (cases t) auto

lemma invc_upd [simp]: "a \<notin> set_tree t \<Longrightarrow> invc (col(a := k)) t = invc col t"
  by (induction t) auto

lemma bh_upd [simp]: "a \<notin> set_tree t \<Longrightarrow> bh (col(a := k)) t = bh col t"
  by (induction t) auto

lemma invh_upd [simp]: "a \<notin> set_tree t \<Longrightarrow> invh (col(a := k)) t = invh col t"
  by (induction t) auto

lemma cinvc_upd [simp]: "a \<notin> set (cleft c) \<Longrightarrow> a \<notin> set (cright c) \<Longrightarrow> cinvc (col(a := k)) c = cinvc col c"
  by (induction c rule: cleft.induct) (auto, (case_tac c rule: cleft.cases; simp)+)

lemma cinvh_upd [simp]: "a \<notin> set (cleft c) \<Longrightarrow> a \<notin> set (cright c) \<Longrightarrow> cinvh (col(a := k)) c h = cinvh col c h"
  by (induction c arbitrary: h rule: cleft.induct) auto

lemma invc_plug:
  "invc col (plug c t) \<longleftrightarrow>
     cinvc col c \<and> invc col t \<and> (c \<noteq> [] \<and> col (fnode (hd c)) = RED \<longrightarrow> rcol col t = BLACK)"
  by (induction c t rule: plug.induct) auto

lemma bh_plug_cong: "bh col t = bh col t' \<Longrightarrow> bh col (plug c t) = bh col (plug c t')"
  by (induction c arbitrary: t t' rule: cleft.induct) auto

lemma invh_plug: "invh col (plug c t) \<longleftrightarrow> invh col t \<and> cinvh col c (bh col t)"
  by (induction c t rule: plug.induct) auto

lemma rcol_plug: "c \<noteq> [] \<Longrightarrow> rcol col (plug c t) = col (ctop x c)"
  by (induction c t arbitrary: x rule: plug.induct) (auto, (case_tac c rule: cleft.cases; simp)+)

lemma rcol_rootp [simp]: "col nl = BLACK \<Longrightarrow> col (rootp nl t) = rcol col t"
  by (cases t) auto

lemma shape_set_color [simp]: "shape (set_color p k s) c t = shape s c t"
  by (simp add: shape_def)

lemma insert_case4_LL:
  assumes "shape s (InL p s1 # InL g u # c) \<langle>l, x, r\<rangle>"
    and "NULL \<noteq> x" "NULL \<noteq> p" "NULL \<noteq> g"
  shows "shape (insert_case4 x s) c \<langle>\<langle>l, x, r\<rangle>, p, \<langle>s1, g, u\<rangle>\<rangle>"
    and "color_of (insert_case4 x s) = (color_of s)(p := BLACK, g := RED)"
    and "value_of (insert_case4 x s) = value_of s"
proof -
  have sh: "shape s c \<langle>\<langle>\<langle>l, x, r\<rangle>, p, s1\<rangle>, g, u\<rangle>" using assms(1) by (simp add: shape_step)
  have "parent_of s x = p \<and> parent_of s p = g \<and> leftChild_of s p = x \<and> rightChild_of s p \<noteq> x
    \<and> leftChild_of s g = p \<and> rightChild_of s g \<noteq> p"
    using assms(1) unfolding shape_def by (simp; (elim conjE)?; simp)
  then have ptr: "parent_of s x = p" "parent_of s p = g" "leftChild_of s p = x" "rightChild_of s p \<noteq> x"
    "leftChild_of s g = p" "rightChild_of s g \<noteq> p" by simp_all
  have eq: "insert_case4 x s = rotate_right g (set_color g RED (set_color p BLACK s))"
    using ptr assms(2-) by (simp add: insert_case4_def insert_case5_def get_grandparent_def Let_def)
  show "shape (insert_case4 x s) c \<langle>\<langle>l, x, r\<rangle>, p, \<langle>s1, g, u\<rangle>\<rangle>"
    unfolding eq using sh by (intro rotate_right_shape) simp
  show "color_of (insert_case4 x s) = (color_of s)(p := BLACK, g := RED)"
    "value_of (insert_case4 x s) = value_of s" unfolding eq by simp_all
qed

lemma insert_case4_RR:
  assumes "shape s (InR s1 p # InR u g # c) \<langle>l, x, r\<rangle>"
    and "NULL \<noteq> x" "NULL \<noteq> p" "NULL \<noteq> g"
  shows "shape (insert_case4 x s) c \<langle>\<langle>u, g, s1\<rangle>, p, \<langle>l, x, r\<rangle>\<rangle>"
    and "color_of (insert_case4 x s) = (color_of s)(p := BLACK, g := RED)"
    and "value_of (insert_case4 x s) = value_of s"
proof -
  have sh: "shape s c \<langle>u, g, \<langle>s1, p, \<langle>l, x, r\<rangle>\<rangle>\<rangle>" using assms(1) by (simp add: shape_step)
  have "parent_of s x = p \<and> parent_of s p = g \<and> rightChild_of s p = x \<and> leftChild_of s p \<noteq> x
    \<and> rightChild_of s g = p \<and> leftChild_of s g \<noteq> p"
    using assms(1) unfolding shape_def by (simp; (elim conjE)?; simp)
  then have ptr: "parent_of s x = p" "parent_of s p = g" "rightChild_of s p = x" "leftChild_of s p \<noteq> x"
    "rightChild_of s g = p" "leftChild_of s g \<noteq> p" by simp_all
  have eq: "insert_case4 x s = rotate_left g (set_color g RED (set_color p BLACK s))"
    using ptr assms(2-) by (simp add: insert_case4_def insert_case5_def get_grandparent_def Let_def)
  show "shape (insert_case4 x s) c \<langle>\<langle>u, g, s1\<rangle>, p, \<langle>l, x, r\<rangle>\<rangle>"
    unfolding eq using sh by (intro rotate_left_shape) simp
  show "color_of (insert_case4 x s) = (color_of s)(p := BLACK, g := RED)"
    "value_of (insert_case4 x s) = value_of s" unfolding eq by simp_all
qed

lemma insert_case4_LR:
  assumes "shape s (InR s1 p # InL g u # c) \<langle>l, x, r\<rangle>"
    and "NULL \<noteq> x" "NULL \<noteq> p" "NULL \<noteq> g"
  shows "shape (insert_case4 x s) c \<langle>\<langle>s1, p, l\<rangle>, x, \<langle>r, g, u\<rangle>\<rangle>"
    and "color_of (insert_case4 x s) = (color_of s)(x := BLACK, g := RED)"
    and "value_of (insert_case4 x s) = value_of s"
proof -
  let ?s1 = "rotate_left p s"
  have sh0: "shape s (InL g u # c) \<langle>s1, p, \<langle>l, x, r\<rangle>\<rangle>" using assms(1) by (simp add: shape_step)
  have sh1: "shape ?s1 (InL g u # c) \<langle>\<langle>s1, p, l\<rangle>, x, r\<rangle>" using sh0 by (rule rotate_left_shape)
  have "parent_of s x = p \<and> parent_of s p = g \<and> rightChild_of s p = x \<and> leftChild_of s g = p"
    using assms(1) unfolding shape_def by (simp; (elim conjE)?; simp)
  then have ptr: "parent_of s x = p" "parent_of s p = g" "rightChild_of s p = x" "leftChild_of s g = p"
    by simp_all
  have "leftChild_of ?s1 x = p \<and> parent_of ?s1 p = x \<and> parent_of ?s1 x = g"
    using sh1 unfolding shape_def by (simp; (elim conjE)?; simp)
  then have ptr1: "leftChild_of ?s1 x = p" "parent_of ?s1 p = x" "parent_of ?s1 x = g" by simp_all
  have eq: "insert_case4 x s = rotate_right g (set_color g RED (set_color x BLACK ?s1))"
    using ptr ptr1 assms(2-) by (simp add: insert_case4_def insert_case5_def get_grandparent_def Let_def)
  have sh2: "shape ?s1 c \<langle>\<langle>\<langle>s1, p, l\<rangle>, x, r\<rangle>, g, u\<rangle>" using sh1 by (simp add: shape_step)
  show "shape (insert_case4 x s) c \<langle>\<langle>s1, p, l\<rangle>, x, \<langle>r, g, u\<rangle>\<rangle>"
    unfolding eq using sh2 by (intro rotate_right_shape) simp
  show "color_of (insert_case4 x s) = (color_of s)(x := BLACK, g := RED)"
    "value_of (insert_case4 x s) = value_of s" unfolding eq by simp_all
qed

lemma insert_case4_RL:
  assumes "shape s (InL p s1 # InR u g # c) \<langle>l, x, r\<rangle>"
    and "NULL \<noteq> x" "NULL \<noteq> p" "NULL \<noteq> g"
  shows "shape (insert_case4 x s) c \<langle>\<langle>u, g, l\<rangle>, x, \<langle>r, p, s1\<rangle>\<rangle>"
    and "color_of (insert_case4 x s) = (color_of s)(x := BLACK, g := RED)"
    and "value_of (insert_case4 x s) = value_of s"
proof -
  let ?s1 = "rotate_right p s"
  have sh0: "shape s (InR u g # c) \<langle>\<langle>l, x, r\<rangle>, p, s1\<rangle>" using assms(1) by (simp add: shape_step)
  have sh1: "shape ?s1 (InR u g # c) \<langle>l, x, \<langle>r, p, s1\<rangle>\<rangle>" using sh0 by (rule rotate_right_shape)
  have "parent_of s x = p \<and> parent_of s p = g \<and> leftChild_of s p = x \<and> rightChild_of s p \<noteq> x \<and> rightChild_of s g = p"
    using assms(1) unfolding shape_def by (simp; (elim conjE)?; simp)
  then have ptr: "parent_of s x = p" "parent_of s p = g" "leftChild_of s p = x" "rightChild_of s p \<noteq> x" "rightChild_of s g = p"
    by simp_all
  have "rightChild_of ?s1 x = p \<and> parent_of ?s1 p = x \<and> parent_of ?s1 x = g \<and> leftChild_of ?s1 x \<noteq> p"
    using sh1 unfolding shape_def by (simp; (elim conjE)?; simp)
  then have ptr1: "rightChild_of ?s1 x = p" "parent_of ?s1 p = x" "parent_of ?s1 x = g" "leftChild_of ?s1 x \<noteq> p" by simp_all
  have eq: "insert_case4 x s = rotate_left g (set_color g RED (set_color x BLACK ?s1))"
    using ptr ptr1 assms(2-) by (simp add: insert_case4_def insert_case5_def get_grandparent_def Let_def)
  have sh2: "shape ?s1 c \<langle>u, g, \<langle>l, x, \<langle>r, p, s1\<rangle>\<rangle>\<rangle>" using sh1 by (simp add: shape_step)
  show "shape (insert_case4 x s) c \<langle>\<langle>u, g, l\<rangle>, x, \<langle>r, p, s1\<rangle>\<rangle>"
    unfolding eq using sh2 by (intro rotate_left_shape) simp
  show "color_of (insert_case4 x s) = (color_of s)(x := BLACK, g := RED)"
    "value_of (insert_case4 x s) = value_of s" unfolding eq by simp_all
qed

lemma insert_case4_frame [simp]:
  "t_nil (insert_case4 x s) = t_nil s"
  "t_size (insert_case4 x s) = t_size s"
  "t_alloc (insert_case4 x s) = t_alloc s"
  by (simp_all add: insert_case4_def insert_case5_def Let_def)

declare insert_case1.simps [simp del] insert_case2.simps [simp del] insert_case3.simps [simp del]

lemma relatives_set_color [simp]:
  "get_grandparent (set_color p k s) x = get_grandparent s x"
  "get_uncle (set_color p k s) x = get_uncle s x"
  "get_sibling (set_color p k s) x = get_sibling s x"
  by (simp_all add: get_grandparent_def get_uncle_def get_sibling_def Let_def)

lemma shape_distinct: "shape s c t \<Longrightarrow> distinct (cleft c @ inorder t @ cright c)"
  by (simp add: shape_def)

lemma shape_nil: "shape s c t \<Longrightarrow> t_nil s \<notin> set (cleft c @ inorder t @ cright c)"
  unfolding shape_def using is_seg_nl is_tree_nl by fastforce

lemma shape_app: "shape s c (plug c1 t) = shape s (c1 @ c) t"
  using shape_plug[of s c "plug c1 t"] shape_plug[of s "c1 @ c" t] by (simp add: plug_append)

lemma shape_parent:
  "shape s (f # c) t \<Longrightarrow> t \<noteq> Leaf \<Longrightarrow>
     parent_of s (rootp (t_nil s) t) = fnode f \<and> value_of s (fnode f) \<noteq> None"
  by (cases f; cases t) (simp_all add: shape_def)

lemma shape_root_parent:
  "shape s [] t \<Longrightarrow> t \<noteq> Leaf \<Longrightarrow>
     parent_of s (rootp (t_nil s) t) = t_nil s \<and> value_of s (t_nil s) = None"
  by (cases t) (simp_all add: shape_def)

lemma plug_not_Leaf [simp]: "c \<noteq> [] \<Longrightarrow> plug c t \<noteq> Leaf"
  by (induction c t rule: plug.induct) (auto, (case_tac c rule: cleft.cases; simp)+)

lemma bh_plug1:
  "bh col (fsib f) = bh col t \<Longrightarrow>
     bh col (plug [f] t) = bh col t + (if col (fnode f) = BLACK then 1 else 0)"
  by (cases f) auto

lemma rcol_plug1 [simp]: "rcol col (plug (f # c) t) = col (ctop (fnode f) c)"
  using rcol_plug[of "f # c" col t "fnode f"] by simp

lemma ctx_distinct2:
  assumes "distinct (cleft (f # g # c) @ xs @ cright (f # g # c))"
  shows "fnode f \<noteq> fnode g" "fnode f \<notin> set_tree (fsib f)" "fnode f \<notin> set_tree (fsib g)"
    "fnode g \<notin> set_tree (fsib f)" "fnode g \<notin> set_tree (fsib g)"
    "fnode f \<notin> set xs" "fnode g \<notin> set xs"
    "fnode f \<notin> set (cleft c)" "fnode f \<notin> set (cright c)"
    "fnode g \<notin> set (cleft c)" "fnode g \<notin> set (cright c)"
    "set_tree (fsib f) \<inter> set_tree (fsib g) = {}"
    "set_tree (fsib f) \<inter> set xs = {}" "set_tree (fsib g) \<inter> set xs = {}"
    "set_tree (fsib f) \<inter> set (cleft c) = {}" "set_tree (fsib f) \<inter> set (cright c) = {}"
    "set_tree (fsib g) \<inter> set (cleft c) = {}" "set_tree (fsib g) \<inter> set (cright c) = {}"
    "set xs \<inter> set (cleft c) = {}" "set xs \<inter> set (cright c) = {}"
  using assms by (cases f; cases g; auto)+

lemma get_uncle_eq:
  assumes "shape s (f # g # c) \<langle>l, x, r\<rangle>" "NULL \<noteq> x" "NULL \<noteq> fnode f" "NULL \<noteq> fnode g"
  shows "get_uncle s x = rootp (t_nil s) (fsib g)" "get_grandparent s x = fnode g"
proof -
  have "parent_of s x = fnode f \<and> parent_of s (fnode f) = fnode g
      \<and> (case g of InL a u \<Rightarrow> leftChild_of s a = fnode f \<and> rightChild_of s a = rootp (t_nil s) u
           | InR u a \<Rightarrow> leftChild_of s a \<noteq> fnode f \<and> leftChild_of s a = rootp (t_nil s) u)"
    using assms(1) unfolding shape_def
    by (cases f; cases g; simp; (elim conjE)?; simp)
  then show "get_uncle s x = rootp (t_nil s) (fsib g)" "get_grandparent s x = fnode g" using assms(2-)
    by (cases g; auto simp: get_uncle_def get_grandparent_def Let_def)+
qed

lemma fix_postI:
  assumes "shape s' c u" "cinvc (color_of s') c" "cinvh (color_of s') c (bh (color_of s') u)"
    "invc (color_of s') u" "invh (color_of s') u"
    "c \<noteq> [] \<and> color_of s' (fnode (hd c)) = RED \<longrightarrow> rcol (color_of s') u = BLACK"
    "rcol (color_of s') (plug c u) = BLACK"
    "cleft c @ inorder u @ cright c = xs"
    "value_of s' = value_of s" "t_nil s' = t_nil s" "t_size s' = t_size s"
    "t_alloc s' = t_alloc s" "color_of s' (t_nil s) = BLACK"
  shows "fix_post s s' xs"
  unfolding fix_post_def using assms
  by (auto intro!: exI[of _ "plug c u"] simp: inorder_plug shape_plug invc_plug invh_plug)

lemma ctop_in: "c \<noteq> [] \<Longrightarrow> ctop h c \<in> set (cleft c) \<union> set (cright c)"
  by (induction c arbitrary: h rule: cleft.induct) (auto, (case_tac c rule: cleft.cases; simp)+)

lemma rcol_plug_if: "rcol col (plug c t) = (if c = [] then rcol col t else col (ctop h c))"
  using rcol_plug[of c col t h] by simp

lemma ins_LL_post:
  assumes sh: "shape s (InL p s1 # InL g u # c) \<langle>l, x, r\<rangle>"
    and col: "color_of s x = RED" "color_of s p = RED" "color_of s g = BLACK"
      "rcol (color_of s) u = BLACK" "rcol (color_of s) s1 = BLACK"
      "invc (color_of s) \<langle>l, x, r\<rangle>" "invh (color_of s) \<langle>l, x, r\<rangle>"
      "cinvc (color_of s) (InL p s1 # InL g u # c)"
      "cinvh (color_of s) (InL p s1 # InL g u # c) (bh (color_of s) \<langle>l, x, r\<rangle>)"
      "c \<noteq> [] \<longrightarrow> color_of s (ctop g c) = BLACK"
      "color_of s (t_nil s) = BLACK"
    and nn: "NULL \<noteq> x" "NULL \<noteq> p" "NULL \<noteq> g"
  shows "fix_post s (insert_case4 x s)
     (cleft (InL p s1 # InL g u # c) @ inorder \<langle>l, x, r\<rangle> @ cright (InL p s1 # InL g u # c))"
proof -
  note r = insert_case4_LL[OF sh nn]
  note d = shape_distinct[OF sh]
  have nl: "t_nil s \<noteq> x" "t_nil s \<noteq> p" "t_nil s \<noteq> g" using shape_nil[OF sh] by auto
  have top: "c \<noteq> [] \<longrightarrow> ctop g c \<noteq> p \<and> ctop g c \<noteq> g"
    using d ctop_in[of c g] by auto
  show ?thesis
    apply (rule fix_postI[where c = c and u = "\<langle>\<langle>l, x, r\<rangle>, p, \<langle>s1, g, u\<rangle>\<rangle>"])
    using r d col nl top by (simp_all add: rcol_plug_if[where h = g])
qed

lemma ins_RR_post:
  assumes sh: "shape s (InR s1 p # InR u g # c) \<langle>l, x, r\<rangle>"
    and col: "color_of s x = RED" "color_of s p = RED" "color_of s g = BLACK"
      "rcol (color_of s) u = BLACK" "rcol (color_of s) s1 = BLACK"
      "invc (color_of s) \<langle>l, x, r\<rangle>" "invh (color_of s) \<langle>l, x, r\<rangle>"
      "cinvc (color_of s) (InR s1 p # InR u g # c)"
      "cinvh (color_of s) (InR s1 p # InR u g # c) (bh (color_of s) \<langle>l, x, r\<rangle>)"
      "c \<noteq> [] \<longrightarrow> color_of s (ctop g c) = BLACK"
      "color_of s (t_nil s) = BLACK"
    and nn: "NULL \<noteq> x" "NULL \<noteq> p" "NULL \<noteq> g"
  shows "fix_post s (insert_case4 x s)
     (cleft (InR s1 p # InR u g # c) @ inorder \<langle>l, x, r\<rangle> @ cright (InR s1 p # InR u g # c))"
proof -
  note r = insert_case4_RR[OF sh nn]
  note d = shape_distinct[OF sh]
  have nl: "t_nil s \<noteq> x" "t_nil s \<noteq> p" "t_nil s \<noteq> g" using shape_nil[OF sh] by auto
  have top: "c \<noteq> [] \<longrightarrow> ctop g c \<noteq> p \<and> ctop g c \<noteq> g"
    using d ctop_in[of c g] by auto
  show ?thesis
    apply (rule fix_postI[where c = c and u = "\<langle>\<langle>u, g, s1\<rangle>, p, \<langle>l, x, r\<rangle>\<rangle>"])
    using r d col nl top by (simp_all add: rcol_plug_if[where h = g])
qed

lemma ins_LR_post:
  assumes sh: "shape s (InR s1 p # InL g u # c) \<langle>l, x, r\<rangle>"
    and col: "color_of s x = RED" "color_of s p = RED" "color_of s g = BLACK"
      "rcol (color_of s) u = BLACK" "rcol (color_of s) s1 = BLACK"
      "invc (color_of s) \<langle>l, x, r\<rangle>" "invh (color_of s) \<langle>l, x, r\<rangle>"
      "cinvc (color_of s) (InR s1 p # InL g u # c)"
      "cinvh (color_of s) (InR s1 p # InL g u # c) (bh (color_of s) \<langle>l, x, r\<rangle>)"
      "c \<noteq> [] \<longrightarrow> color_of s (ctop g c) = BLACK"
      "color_of s (t_nil s) = BLACK"
    and nn: "NULL \<noteq> x" "NULL \<noteq> p" "NULL \<noteq> g"
  shows "fix_post s (insert_case4 x s)
     (cleft (InR s1 p # InL g u # c) @ inorder \<langle>l, x, r\<rangle> @ cright (InR s1 p # InL g u # c))"
proof -
  note r = insert_case4_LR[OF sh nn]
  note d = shape_distinct[OF sh]
  have nl: "t_nil s \<noteq> x" "t_nil s \<noteq> p" "t_nil s \<noteq> g" using shape_nil[OF sh] by auto
  have top: "c \<noteq> [] \<longrightarrow> ctop g c \<noteq> x \<and> ctop g c \<noteq> g"
    using d ctop_in[of c g] by auto
  show ?thesis
    apply (rule fix_postI[where c = c and u = "\<langle>\<langle>s1, p, l\<rangle>, x, \<langle>r, g, u\<rangle>\<rangle>"])
    using r d col nl top by (simp_all add: rcol_plug_if[where h = g])
qed

lemma ins_RL_post:
  assumes sh: "shape s (InL p s1 # InR u g # c) \<langle>l, x, r\<rangle>"
    and col: "color_of s x = RED" "color_of s p = RED" "color_of s g = BLACK"
      "rcol (color_of s) u = BLACK" "rcol (color_of s) s1 = BLACK"
      "invc (color_of s) \<langle>l, x, r\<rangle>" "invh (color_of s) \<langle>l, x, r\<rangle>"
      "cinvc (color_of s) (InL p s1 # InR u g # c)"
      "cinvh (color_of s) (InL p s1 # InR u g # c) (bh (color_of s) \<langle>l, x, r\<rangle>)"
      "c \<noteq> [] \<longrightarrow> color_of s (ctop g c) = BLACK"
      "color_of s (t_nil s) = BLACK"
    and nn: "NULL \<noteq> x" "NULL \<noteq> p" "NULL \<noteq> g"
  shows "fix_post s (insert_case4 x s)
     (cleft (InL p s1 # InR u g # c) @ inorder \<langle>l, x, r\<rangle> @ cright (InL p s1 # InR u g # c))"
proof -
  note r = insert_case4_RL[OF sh nn]
  note d = shape_distinct[OF sh]
  have nl: "t_nil s \<noteq> x" "t_nil s \<noteq> p" "t_nil s \<noteq> g" using shape_nil[OF sh] by auto
  have top: "c \<noteq> [] \<longrightarrow> ctop g c \<noteq> x \<and> ctop g c \<noteq> g"
    using d ctop_in[of c g] by auto
  show ?thesis
    apply (rule fix_postI[where c = c and u = "\<langle>\<langle>u, g, l\<rangle>, x, \<langle>r, p, s1\<rangle>\<rangle>"])
    using r d col nl top by (simp_all add: rcol_plug_if[where h = g])
qed

lemma insert_case1_correct:
  assumes "shape s c t" "t \<noteq> Leaf" "x = rootp (t_nil s) t"
      "rcol (color_of s) t = RED" "invc (color_of s) t" "invh (color_of s) t"
      "cinvc (color_of s) c" "cinvh (color_of s) c (bh (color_of s) t)"
      "c \<noteq> [] \<longrightarrow> color_of s (ctop x c) = BLACK"
      "color_of s (t_nil s) = BLACK"
      "NULL \<notin> set (cleft c @ inorder t @ cright c)"
      "length c \<le> fuel"
  shows "\<exists>s'. insert_case1 fuel x s = Some s' \<and> fix_post s s' (cleft c @ inorder t @ cright c)"
  using assms
proof (induction c arbitrary: s t x fuel rule: induct_list012)
  case 1
  let ?s' = "set_color x BLACK s"
  obtain l r where t: "t = \<langle>l, x, r\<rangle>" using 1(2,3) by (cases t) auto
  have "insert_case1 fuel x s = Some ?s'"
    using shape_root_parent[OF 1(1,2)] 1(3) by (simp add: insert_case1.simps)
  moreover have "fix_post s ?s' (cleft [] @ inorder t @ cright [])"
    using 1 shape_distinct[OF 1(1)] unfolding t
    by (intro fix_postI[where c = "[]" and u = "\<langle>l, x, r\<rangle>"]) (auto simp: shape_def)
  ultimately show ?case by blast
next
  case (2 f)
  have "insert_case1 fuel x s = Some s"
    using shape_parent[OF 2(1,2)] 2(3,9) by (simp add: insert_case1.simps insert_case2.simps)
  moreover have "fix_post s s (cleft [f] @ inorder t @ cright [f])"
    using 2 by (intro fix_postI[where c = "[f]" and u = t]) auto
  ultimately show ?case by blast
next
  case (3 f g c)
  let ?col = "color_of s"
  note sh = 3(3)
  note d = ctx_distinct2[OF shape_distinct[OF sh]]
  obtain k where k: "fuel = Suc k" "length c \<le> k"
    using 3(14) by (cases fuel) auto
  obtain l r where t: "t = \<langle>l, x, r\<rangle>" using 3(4,5) by (cases t) auto
  have par: "parent_of s x = fnode f" "value_of s (fnode f) \<noteq> None"
    using shape_parent[OF sh 3(4)] 3(5) by simp_all
  have inv: "invc ?col (fsib f)" "invc ?col (fsib g)" "cinvc ?col c"
     "invh ?col (fsib f)" "invh ?col (fsib g)" "bh ?col (fsib f) = bh ?col t"
    using 3(9,10) by auto
  show ?case
  proof (cases "?col (fnode f) = BLACK")
    case True
    have "insert_case1 fuel x s = Some s" using par True by (simp add: insert_case1.simps insert_case2.simps)
    moreover have "fix_post s s (cleft (f # g # c) @ inorder t @ cright (f # g # c))"
      using 3(3-) True by (intro fix_postI[where c = "f # g # c" and u = t]) auto
    ultimately show ?thesis by blast
  next
    case False
    then have pr: "?col (fnode f) = RED" by simp
    then have gb: "?col (fnode g) = BLACK" and sb: "rcol ?col (fsib f) = BLACK" using 3(9) by auto
    have nn: "NULL \<noteq> x" "NULL \<noteq> fnode f" "NULL \<noteq> fnode g" using 3(13) t by (cases f; cases g; auto)+
    have unc: "get_uncle s x = rootp (t_nil s) (fsib g)" "get_grandparent s x = fnode g"
      using get_uncle_eq[OF sh[unfolded t] nn] .
    have bhg: "bh ?col (fsib g) = bh ?col t"
      using 3(10) pr by simp
    show ?thesis
    proof (cases "rcol ?col (fsib g) = RED")
      case True
      then obtain ul ua ur where u: "fsib g = \<langle>ul, ua, ur\<rangle>" and ur: "?col ua = RED"
        by (cases "fsib g") auto
      have uv: "value_of s ua \<noteq> None" "ua \<noteq> t_nil s"
        using sh u unfolding shape_def by (cases f; cases g; simp)+
      have ud: "ua \<noteq> fnode f" "ua \<noteq> fnode g" "ua \<notin> set_tree (fsib f)" "ua \<notin> set_tree t" 
         "ua \<notin> set (cleft c)" "ua \<notin> set (cright c)" "ua \<notin> set_tree ul" "ua \<notin> set_tree ur"
        using d u shape_distinct[OF sh] by (cases f; cases g; auto)+
      let ?s' = "set_color (fnode g) RED (set_color ua BLACK (set_color (fnode f) BLACK s))"
      let ?col' = "color_of ?s'"
      have step: "insert_case1 fuel x s = insert_case1 k (fnode g) ?s'"
        using par pr unc u uv ur
        by (simp add: k(1) insert_case1.simps[of "Suc k" x s] insert_case2.simps[of "Suc k" x s]
            insert_case3.simps(2)[of k x s] Let_def)
      have sh': "shape ?s' c (plug [f, g] t)"
        using sh by (simp add: shape_app)
      have io: "cleft c @ inorder (plug [f, g] t) @ cright c = cleft (f # g # c) @ inorder t @ cright (f # g # c)"
        by (cases f; cases g; auto)
      have colt: "invc ?col' t" "invh ?col' t" "bh ?col' t = bh ?col t" "rcol ?col' t = RED"
        using d ud 3(6,7,8) by (simp_all flip: set_inorder)
      have cols: "invc ?col' (fsib f)" "invh ?col' (fsib f)" "bh ?col' (fsib f) = bh ?col (fsib f)"
        using d ud inv by simp_all
      have colu: "invc ?col' (fsib g)" "invh ?col' (fsib g)" "bh ?col' (fsib g) = Suc (bh ?col (fsib g))"
         "rcol ?col' (fsib g) = BLACK"
        using d ud inv u ur by auto
      have colc: "cinvc ?col' c" "cinvh ?col' c (Suc (bh ?col t))"
        using d ud 3(9,10) pr gb by simp_all
      have "\<exists>s''. insert_case1 k (fnode g) ?s' = Some s'' \<and> fix_post ?s' s'' (cleft c @ inorder (plug [f, g] t) @ cright c)"
      proof (rule 3(1)[OF sh'])
        show "plug [f, g] t \<noteq> \<langle>\<rangle>" by simp
        show "fnode g = rootp (t_nil ?s') (plug [f, g] t)" by (simp add: rootp_plug)
        show "rcol ?col' (plug [f, g] t) = RED" by simp
        show "invc ?col' (plug [f, g] t)"
          unfolding invc_plug using colt cols colu d by simp
        show "invh ?col' (plug [f, g] t)"
          unfolding invh_plug using colt cols colu bhg inv d by simp
        show "cinvc ?col' c" by fact
        have b1: "bh ?col' (plug [f] t) = Suc (bh ?col t)"
          using bh_plug1[of ?col' f t] colt cols inv d ud by simp
        have b2: "bh ?col' (plug [g] (plug [f] t)) = bh ?col' (plug [f] t)"
          using bh_plug1[of ?col' g "plug [f] t"] b1 colu bhg by simp
        have "plug [f, g] t = plug [g] (plug [f] t)" by (cases f; simp)
        then have "bh ?col' (plug [f, g] t) = Suc (bh ?col t)"
          using b1 b2 by simp
        then show "cinvh ?col' c (bh ?col' (plug [f, g] t))"
          using colc by simp
        show "c \<noteq> [] \<longrightarrow> color_of ?s' (ctop (fnode g) c) = BLACK"
          using 3(11) ud d ctop_in[of c "fnode g"] by auto
        show "color_of ?s' (t_nil ?s') = BLACK" using 3(12) uv shape_nil[OF sh] by (cases f; cases g; auto)
        show "NULL \<notin> set (cleft c @ inorder (plug [f, g] t) @ cright c)" using 3(13) unfolding io by simp
        show "length c \<le> k" by fact
      qed
      then show ?thesis unfolding step io by (auto simp: fix_post_def)
    next
      case False
      then have ub: "rcol ?col (fsib g) = BLACK" by simp
      have nl: "t_nil s \<notin> set_tree (fsib g)" using shape_nil[OF sh] by (cases f; cases g; auto)
      have "?col (rootp (t_nil s) (fsib g)) = BLACK"
        using ub 3(12) by simp
      then have step: "insert_case1 fuel x s = Some (insert_case4 x s)"
        using par pr unc
        by (simp add: k(1) insert_case1.simps[of "Suc k" x s] insert_case2.simps[of "Suc k" x s]
            insert_case3.simps(2)[of k x s] Let_def)
      have "fix_post s (insert_case4 x s) (cleft (f # g # c) @ inorder t @ cright (f # g # c))"
      proof (cases f)
        case fL: (InL p s1)
        show ?thesis
        proof (cases g)
          case (InL gp u)
          show ?thesis unfolding fL InL t
            using sh 3(6-12) pr gb ub sb nn unfolding fL InL t
            by (intro ins_LL_post) simp_all
        next
          case (InR u gp)
          show ?thesis unfolding fL InR t
            using sh 3(6-12) pr gb ub sb nn unfolding fL InR t
            by (intro ins_RL_post) simp_all
        qed
      next
        case fR: (InR s1 p)
        show ?thesis
        proof (cases g)
          case (InL gp u)
          show ?thesis unfolding fR InL t
            using sh 3(6-12) pr gb ub sb nn unfolding fR InL t
            by (intro ins_LR_post) simp_all
        next
          case (InR u gp)
          show ?thesis unfolding fR InR t
            using sh 3(6-12) pr gb ub sb nn unfolding fR InR t
            by (intro ins_RR_post) simp_all
        qed
      qed
      then show ?thesis using step by blast
    qed
  qed
qed

lemma attach_left_shape:
  assumes "shape s (InL a r # c) Leaf" "value_of s n \<noteq> None"
    "n \<notin> set (cleft c)" "n \<noteq> a" "n \<notin> set_tree r" "n \<notin> set (cright c)" "n \<noteq> t_nil s"
  shows "shape (set_color n RED (set_rightChild n (t_nil s) (set_leftChild n (t_nil s)
            (set_parent n a (set_leftChild a n s))))) (InL a r # c) \<langle>Leaf, n, Leaf\<rangle>"
  using assms unfolding shape_def
  by (simp del: fun_upd_apply; (elim conjE)?; simp)

lemma attach_right_shape:
  assumes "shape s (InR l a # c) Leaf" "value_of s n \<noteq> None"
    "n \<notin> set (cleft c)" "n \<noteq> a" "n \<notin> set_tree l" "n \<notin> set (cright c)" "n \<noteq> t_nil s"
  shows "shape (set_color n RED (set_rightChild n (t_nil s) (set_leftChild n (t_nil s)
            (set_parent n a (set_rightChild a n s))))) (InR l a # c) \<langle>Leaf, n, Leaf\<rangle>"
  using assms unfolding shape_def
  by (simp del: fun_upd_apply; (elim conjE)?; simp)

lemma shape_node:
  "shape s c \<langle>l, a, r\<rangle> \<Longrightarrow> value_of s a \<noteq> None \<and> leftChild_of s a = rootp (t_nil s) l
     \<and> rightChild_of s a = rootp (t_nil s) r \<and> value_of s (t_nil s) = None
     \<and> t_nil s \<notin> set_tree l \<and> t_nil s \<notin> set_tree r \<and> a \<noteq> t_nil s
     \<and> parent_of s a = cpar (t_nil s) c"
  using is_tree_nl by (fastforce simp: shape_def)

lemma shape_real: "shape s c t \<Longrightarrow> (value_of s (rootp (t_nil s) t) \<noteq> None) = (t \<noteq> Leaf)"
  by (cases t) (auto simp: shape_def)

lemma get_position_correct:
  assumes "shape s c t" "t \<noteq> Leaf" "value_of s n = Some v"
    "n \<notin> set (cleft c @ inorder t @ cright c)" "n \<noteq> t_nil s"
    "sorted_wrt (<) (map (key_of s) (cleft c @ inorder t @ cright c))"
    "\<forall>a \<in> set (cleft c). key_of s a < v" "\<forall>a \<in> set (cright c). v < key_of s a"
    "height t \<le> fuel"
  shows "(\<exists>pos. pos \<in> set_tree t \<and> key_of s pos = v
            \<and> get_position fuel (rootp (t_nil s) t) n s = Some (s, pos, False))
       \<or> (\<exists>c' s'. get_position fuel (rootp (t_nil s) t) n s = Some (s', cpar (t_nil s) c', True)
            \<and> plug c' Leaf = plug c t \<and> pos_post s s' n v c' \<and> v \<notin> key_of s ` set_tree t)"
  using assms
proof (induction t arbitrary: c fuel)
  case Leaf
  then show ?case by simp
next
  case (Node l a r)
  obtain k where k: "fuel = Suc k" "height l \<le> k" "height r \<le> k"
    using Node.prems(9) by (cases fuel) auto
  note sn = shape_node[OF Node.prems(1)]
  obtain pv where pv: "value_of s a = Some pv" using sn by (auto simp: not_None_eq)
  then have ka: "key_of s a = pv" by (simp add: key_of_def)
  have srt: "\<forall>b \<in> set_tree l. key_of s b < pv" "\<forall>b \<in> set_tree r. pv < key_of s b"
    using Node.prems(6) ka by (auto simp: sorted_wrt_append)
  consider (lt) "v < pv" | (gt) "pv < v" | (eq) "v = pv" by (metis less_linear)
  then show ?case
  proof cases
    case lt
    show ?thesis
    proof (cases l)
      case Leaf
      let ?s' = "set_color n RED (set_rightChild n (t_nil s) (set_leftChild n (t_nil s)
            (set_parent n a (set_leftChild a n s))))"
      let ?c' = "InL a r # c"
      have gp: "get_position fuel (rootp (t_nil s) \<langle>l, a, r\<rangle>) n s = Some (?s', a, True)"
        using sn pv lt Node.prems(3) Leaf by (simp add: k Let_def)
      have sh: "shape ?s' ?c' \<langle>Leaf, n, Leaf\<rangle>"
        using Node.prems(1,3,4,5) Leaf by (intro attach_left_shape) (auto simp: shape_step)
      have "pos_post s ?s' n v ?c'"
        unfolding pos_post_def using sh Node.prems(7,8) lt ka srt by auto
      moreover have "v \<notin> key_of s ` set_tree \<langle>l, a, r\<rangle>" using lt ka srt Leaf by auto
      ultimately show ?thesis using gp Leaf by (intro disjI2 exI[of _ ?c'] exI[of _ ?s']) simp
    next
      case (Node l1 b l2)
      have gp: "get_position fuel (rootp (t_nil s) \<langle>l, a, r\<rangle>) n s = get_position k (rootp (t_nil s) l) n s"
        using sn pv lt Node.prems(3) Node shape_real[of s "InL a r # c" l] Node.prems(1)
        by (simp add: k Let_def shape_step)
      have "(\<exists>pos. pos \<in> set_tree l \<and> key_of s pos = v
            \<and> get_position k (rootp (t_nil s) l) n s = Some (s, pos, False))
       \<or> (\<exists>c' s'. get_position k (rootp (t_nil s) l) n s = Some (s', cpar (t_nil s) c', True)
            \<and> plug c' Leaf = plug (InL a r # c) l \<and> pos_post s s' n v c' \<and> v \<notin> key_of s ` set_tree l)"
        using Node.prems Node lt ka srt k
        by (intro Node.IH(1)) (auto simp: shape_step)
      moreover have "v \<notin> key_of s ` set_tree r" "v \<noteq> key_of s a" using lt ka srt by auto
      ultimately show ?thesis unfolding gp by (elim disjE; fastforce)
    qed
  next
    case gt
    then have ngt: "\<not> v < pv" by simp
    show ?thesis
    proof (cases r)
      case Leaf
      let ?s' = "set_color n RED (set_rightChild n (t_nil s) (set_leftChild n (t_nil s)
            (set_parent n a (set_rightChild a n s))))"
      let ?c' = "InR l a # c"
      have gp: "get_position fuel (rootp (t_nil s) \<langle>l, a, r\<rangle>) n s = Some (?s', a, True)"
        using sn pv gt ngt Node.prems(3) Leaf by (simp add: k Let_def)
      have sh: "shape ?s' ?c' \<langle>Leaf, n, Leaf\<rangle>"
        using Node.prems(1,3,4,5) Leaf by (intro attach_right_shape) (auto simp: shape_step)
      have "pos_post s ?s' n v ?c'"
        unfolding pos_post_def using sh Node.prems(7,8) gt ka srt by auto
      moreover have "v \<notin> key_of s ` set_tree \<langle>l, a, r\<rangle>" using gt ka srt Leaf by auto
      ultimately show ?thesis using gp Leaf by (intro disjI2 exI[of _ ?c'] exI[of _ ?s']) simp
    next
      case (Node r1 b r2)
      have gp: "get_position fuel (rootp (t_nil s) \<langle>l, a, r\<rangle>) n s = get_position k (rootp (t_nil s) r) n s"
        using sn pv gt ngt Node.prems(3) Node shape_real[of s "InR l a # c" r] Node.prems(1)
        by (simp add: k Let_def shape_step)
      have "(\<exists>pos. pos \<in> set_tree r \<and> key_of s pos = v
            \<and> get_position k (rootp (t_nil s) r) n s = Some (s, pos, False))
       \<or> (\<exists>c' s'. get_position k (rootp (t_nil s) r) n s = Some (s', cpar (t_nil s) c', True)
            \<and> plug c' Leaf = plug (InR l a # c) r \<and> pos_post s s' n v c' \<and> v \<notin> key_of s ` set_tree r)"
        using Node.prems Node gt ka srt k
        by (intro Node.IH(2)) (auto simp: shape_step)
      moreover have "v \<notin> key_of s ` set_tree l" "v \<noteq> key_of s a" using gt ka srt by auto
      ultimately show ?thesis unfolding gp by (elim disjE; fastforce)
    qed
  next
    case eq
    have "get_position fuel (rootp (t_nil s) \<langle>l, a, r\<rangle>) n s = Some (s, a, False)"
      using sn pv eq Node.prems(3) by (simp add: k)
    then show ?thesis using eq ka by auto
  qed
qed

lemma alloc_upd [simp]:
  "value_of (s\<lparr>t_alloc := x\<rparr>) = value_of s"
  "color_of (s\<lparr>t_alloc := x\<rparr>) = color_of s"
  "parent_of (s\<lparr>t_alloc := x\<rparr>) = parent_of s"
  "leftChild_of (s\<lparr>t_alloc := x\<rparr>) = leftChild_of s"
  "rightChild_of (s\<lparr>t_alloc := x\<rparr>) = rightChild_of s"
  by (simp_all add: fun_eq_iff value_of_def color_of_def parent_of_def leftChild_of_def rightChild_of_def)

lemma descend_right_correct:
  "shape s c t \<Longrightarrow> t \<noteq> Leaf \<Longrightarrow> height t \<le> fuel \<Longrightarrow>
     descend_right fuel s (rootp (t_nil s) t) = Some (last (inorder t))"
proof (induction t arbitrary: c fuel)
  case Leaf
  then show ?case by simp
next
  case (Node l a r)
  obtain k where k: "fuel = Suc k" "height r \<le> k" using Node.prems(3) by (cases fuel) auto
  note sn = shape_node[OF Node.prems(1)]
  show ?case
  proof (cases r)
    case Leaf
    then show ?thesis using sn by (simp add: k)
  next
    case (Node r1 b r2)
    have sh: "shape s (InR l a # c) r" using Node.prems(1) by (simp add: shape_step)
    have "descend_right k s (rootp (t_nil s) r) = Some (last (inorder r))"
      using sh Node k by (intro Node.IH(2)) auto
    then show ?thesis using sn shape_real[OF sh] Node by (simp add: k)
  qed
qed

lemma descend_left_correct:
  "shape s c t \<Longrightarrow> t \<noteq> Leaf \<Longrightarrow> height t \<le> fuel \<Longrightarrow>
     descend_left fuel s (rootp (t_nil s) t) = Some (hd (inorder t))"
proof (induction t arbitrary: c fuel)
  case Leaf
  then show ?case by simp
next
  case (Node l a r)
  obtain k where k: "fuel = Suc k" "height l \<le> k" using Node.prems(3) by (cases fuel) auto
  note sn = shape_node[OF Node.prems(1)]
  show ?case
  proof (cases l)
    case Leaf
    then show ?thesis using sn by (simp add: k)
  next
    case (Node l1 b l2)
    have sh: "shape s (InL a r # c) l" using Node.prems(1) by (simp add: shape_step)
    have "descend_left k s (rootp (t_nil s) l) = Some (hd (inorder l))"
      using sh Node k by (intro Node.IH(1)) auto
    moreover have "hd (inorder l @ a # inorder r) = hd (inorder l)" using Node by (simp add: hd_append)
    ultimately show ?thesis using sn shape_real[OF sh] Node by (simp add: k del: append_assoc)
  qed
qed

lemma height_plug: "height t + length c \<le> height (plug c t)"
proof (induction c t rule: plug.induct)
  case (1 t)
  then show ?case by simp
next
  case (2 a r c t)
  have "height t + Suc (length c) \<le> height \<langle>t, a, r\<rangle> + length c" by simp
  then show ?case using 2 by simp
next
  case (3 l a c t)
  have "height t + Suc (length c) \<le> height \<langle>l, a, t\<rangle> + length c" by simp
  then show ?case using 3 by simp
qed

lemma length_le_height: "length c \<le> height (plug c t)"
  using height_plug[of t c] by simp

lemma alloc_upd2 [simp]:
  "shape (s\<lparr>t_alloc := x\<rparr>) c t = shape s c t"
  "key_of (s\<lparr>t_alloc := x\<rparr>) = key_of s"
  by (simp_all add: shape_def key_of_def fun_eq_iff)

lemma shape_set_value:
  "n \<notin> set (cleft c @ inorder t @ cright c) \<Longrightarrow> n \<noteq> t_nil s \<Longrightarrow>
     shape (set_value n x s) c t = shape s c t"
  by (simp add: shape_def)

lemma shape_set_size [simp]: "shape (set_size n s) c t = shape s c t"
  by (simp add: shape_def)

lemma shape_set_parent_nil [simp]: "shape (set_parent (t_nil s) m s) c t = shape s c t"
proof -
  have "shape s c t \<Longrightarrow> shape (set_parent (t_nil s) m s) c t"
    using shape_nil[of s c t] by (simp add: shape_def)
  moreover have "shape (set_parent (t_nil s) m s) c t \<Longrightarrow> shape s c t"
  proof -
    assume a: "shape (set_parent (t_nil s) m s) c t"
    have "is_seg (t_nil s) (value_of s) ((parent_of s)(t_nil s := m)) (leftChild_of s)
      (rightChild_of s) (t_nil s) c (rootp (t_nil s) t)"
      "is_tree (t_nil s) (value_of s) ((parent_of s)(t_nil s := m)) (leftChild_of s)
      (rightChild_of s) (cpar (t_nil s) c) t" using a by (simp_all add: shape_def)
    from is_seg_nl[OF this(1)] is_tree_nl[OF this(2)] a show ?thesis
      by (simp add: shape_def)
  qed
  ultimately show ?thesis by blast
qed

lemma key_of_set [simp]:
  "key_of (set_color p k s) = key_of s"
  "key_of (set_parent p q s) = key_of s"
  "key_of (set_size n s) = key_of s"
  by (simp_all add: key_of_def fun_eq_iff)

lemma key_of_cong: "value_of s' = value_of s \<Longrightarrow> key_of s' = key_of s"
  by (simp add: key_of_def fun_eq_iff)

lemma validI:
  assumes "shape s [] t" "\<forall>a \<in> set (inorder t). a < t_alloc s \<and> a \<noteq> NULL"
    "t_nil s < t_alloc s" "t_nil s \<noteq> NULL" "t_size s = length (inorder t)"
    "invc (color_of s) t" "invh (color_of s) t" "rcol (color_of s) t = BLACK"
    "color_of s (t_nil s) = BLACK" "sorted_wrt (<) (map (key_of s) (inorder t))"
    "t \<noteq> Leaf \<longrightarrow> parent_of s (t_nil s) = last (inorder t)"
  shows "valid s t"
  using assms by (simp add: valid_def wf_def length_inorder)

lemma insert_rb_new:
  assumes "valid s t" "t_size s < fuel" "v \<notin> key_of s ` set_tree t"
  shows "\<exists>s' t' xs ys. insert_rb fuel v NULL s = Some (s', t_alloc s, True) \<and> valid s' t'
     \<and> inorder t = xs @ ys \<and> inorder t' = xs @ t_alloc s # ys
     \<and> value_of s' = (value_of s)(t_alloc s := Some v)
     \<and> t_nil s' = t_nil s \<and> t_alloc s' = Suc (t_alloc s) \<and> t_size s' = Suc (t_size s)"
proof -
  let ?n = "t_alloc s"
  let ?s1 = "set_value ?n (Some v) (s\<lparr>t_alloc := Suc ?n\<rparr>)"
  have mk: "make_node v s = (?n, ?s1)" by (simp add: make_node_def allocate_def)
  have v: "shape s [] t" "\<forall>a \<in> set_tree t. a < ?n \<and> a \<noteq> NULL" "t_nil s < ?n" "t_nil s \<noteq> NULL"
    "t_size s = size t" "invc (color_of s) t" "invh (color_of s) t" "rcol (color_of s) t = BLACK"
    "color_of s (t_nil s) = BLACK" "sorted_wrt (<) (map (key_of s) (inorder t))"
    using assms(1) by (simp_all add: valid_def wf_def)
  have nf: "?n \<notin> set_tree t" "?n \<noteq> t_nil s" "?n \<noteq> NULL" using v(2,3) by (auto simp: NULL_def)
  have sh1: "shape ?s1 [] t" using v(1) nf by (simp add: shape_set_value)
  have k1: "\<forall>a \<in> set_tree t. key_of ?s1 a = key_of s a" using nf by (auto simp: key_of_def)
  show ?thesis
  proof (cases t)
    case Leaf
    let ?s' = "set_size (t_size ?s1 + 1) (set_parent (t_nil s) ?n (set_color ?n BLACK (set_parent ?n (t_nil s)
        (set_rightChild ?n (t_nil s) (set_leftChild ?n (t_nil s) (set_root ?n ?s1))))))"
    have "insert_rb fuel v NULL s = Some (?s', ?n, True)"
      using v(5) Leaf by (simp add: insert_rb_def mk Let_def)
    moreover have "valid ?s' \<langle>Leaf, ?n, Leaf\<rangle>"
      using v nf Leaf by (intro validI) (simp_all add: shape_def)
    ultimately show ?thesis using Leaf by (intro exI[of _ ?s'] exI[of _ "\<langle>Leaf, ?n, Leaf\<rangle>"] exI[of _ "[]"]) simp
  next
    case (Node l a r)
    then have tn: "t \<noteq> Leaf" by simp
    have sz: "t_size ?s1 \<noteq> 0" using v(5) Node by simp
    have ht: "height t \<le> fuel" using height_le_size_tree[of t] v(5) assms(2) by simp
    have "map (key_of ?s1) (inorder t) = map (key_of s) (inorder t)"
      using k1 by (intro map_cong) (auto simp flip: set_inorder)
    then have srt1: "sorted_wrt (<) (map (key_of ?s1) (cleft [] @ inorder t @ cright []))"
      unfolding cleft.simps cright.simps append_Nil append_Nil2 using v(10) by (simp only:)
    have vn: "v \<notin> key_of ?s1 ` set_tree t" using assms(3) k1 by (auto simp: image_iff)
    have nf': "?n \<notin> set (cleft [] @ inorder t @ cright [])" using nf by simp
    have vs: "value_of ?s1 ?n = Some v" by simp
    have "\<not> (\<exists>pos. pos \<in> set_tree t \<and> key_of ?s1 pos = v
            \<and> get_position fuel (rootp (t_nil ?s1) t) ?n ?s1 = Some (?s1, pos, False))"
    proof (intro notI, elim exE conjE)
      fix pos assume "pos \<in> set_tree t" "key_of ?s1 pos = v"
      then have "v \<in> key_of ?s1 ` set_tree t" by (intro image_eqI[of _ _ pos]) simp_all
      then show False using vn by simp
    qed
    with get_position_correct[OF sh1 tn vs nf' _ srt1 _ _ ht] nf
    obtain c' s2 where gp: "get_position fuel (rootp (t_nil ?s1) t) ?n ?s1 = Some (s2, cpar (t_nil ?s1) c', True)"
      and pl: "plug c' Leaf = plug [] t" and pp: "pos_post ?s1 s2 ?n v c'"
      by auto
    have p: "c' \<noteq> []" "shape s2 c' \<langle>Leaf, ?n, Leaf\<rangle>"
      "color_of s2 = (color_of s)(?n := RED)" "value_of s2 = (value_of s)(?n := Some v)"
      "t_nil s2 = t_nil s" "t_size s2 = t_size s" "t_alloc s2 = Suc ?n"
      "\<forall>a \<in> set (cleft c'). key_of ?s1 a < v" "\<forall>a \<in> set (cright c'). v < key_of ?s1 a"
      using pp by (simp_all add: pos_post_def)
    have io: "inorder t = cleft c' @ cright c'" using pl inorder_plug[of c' Leaf] by simp
    have nc: "?n \<notin> set (cleft c')" "?n \<notin> set (cright c')" using nf io by (auto simp flip: set_inorder)
    have T: "t = plug c' Leaf" using pl by simp
    have len: "length c' \<le> fuel" using length_le_height[of c' Leaf] ht T by simp
    have "\<exists>s'. insert_case1 fuel ?n s2 = Some s' \<and> fix_post s2 s' (cleft c' @ inorder \<langle>Leaf, ?n, Leaf\<rangle> @ cright c')"
    proof (rule insert_case1_correct[OF p(2)])
      show "\<langle>\<langle>\<rangle>, ?n, \<langle>\<rangle>\<rangle> \<noteq> \<langle>\<rangle>" by simp
      show "?n = rootp (t_nil s2) \<langle>\<langle>\<rangle>, ?n, \<langle>\<rangle>\<rangle>" by simp
      show "rcol (color_of s2) \<langle>\<langle>\<rangle>, ?n, \<langle>\<rangle>\<rangle> = RED" using p(3) by simp
      show "invc (color_of s2) \<langle>\<langle>\<rangle>, ?n, \<langle>\<rangle>\<rangle>" by simp
      show "invh (color_of s2) \<langle>\<langle>\<rangle>, ?n, \<langle>\<rangle>\<rangle>" by simp
      show "cinvc (color_of s2) c'" using v(6) nc unfolding T invc_plug p(3) by simp
      show "cinvh (color_of s2) c' (bh (color_of s2) \<langle>\<langle>\<rangle>, ?n, \<langle>\<rangle>\<rangle>)"
        using v(7) nc unfolding T invh_plug p(3) by simp
      have "ctop ?n c' \<in> set (cleft c') \<union> set (cright c')" using ctop_in[OF p(1)] .
      then have "ctop ?n c' \<noteq> ?n" using nc by auto
      then show "c' \<noteq> [] \<longrightarrow> color_of s2 (ctop ?n c') = BLACK"
        using v(8) p(1) unfolding T p(3) by (simp add: rcol_plug_if[where h = "?n"])
      show "color_of s2 (t_nil s2) = BLACK" using v(9) nf p(3,5) by simp
      show "NULL \<notin> set (cleft c' @ inorder \<langle>\<langle>\<rangle>, ?n, \<langle>\<rangle>\<rangle> @ cright c')"
        using v(2) nf io by (auto simp flip: set_inorder)
      show "length c' \<le> fuel" by fact
    qed
    then obtain s3 where ic: "insert_case1 fuel ?n s2 = Some s3"
      and fp: "fix_post s2 s3 (cleft c' @ ?n # cright c')" by auto
    then obtain t' where t': "shape s3 [] t'" "inorder t' = cleft c' @ ?n # cright c'"
      "invc (color_of s3) t'" "invh (color_of s3) t'" "rcol (color_of s3) t' = BLACK"
      and f3: "value_of s3 = value_of s2" "t_nil s3 = t_nil s2" "t_size s3 = t_size s2"
      "t_alloc s3 = t_alloc s2" "color_of s3 (t_nil s2) = BLACK"
      by (auto simp: fix_post_def)
    let ?s4 = "set_size (t_size s3 + 1) s3"
    have tn': "t' \<noteq> Leaf" using t'(2) by auto
    have "height t' \<le> size t'" by (rule height_le_size_tree)
    also have "size t' = Suc (size t)" using t'(2) io by (simp flip: length_inorder)
    finally have ht': "height t' \<le> fuel" using v(5) assms(2) by simp
    have mx: "get_max_value_node fuel ?s4 = Some (last (inorder t'))"
      using descend_right_correct[of ?s4 "[]" t' fuel] t'(1) tn' ht'
      by (simp add: get_max_value_node_def shape_def)
    let ?s5 = "set_parent (t_nil ?s4) (last (inorder t')) ?s4"
    have rt: "t_root s = rootp (t_nil s) t" using v(1) by (simp add: shape_def)
    have res: "insert_rb fuel v NULL s = Some (?s5, ?n, True)"
      using sz gp ic mx rt by (simp add: insert_rb_def mk Let_def)
    have ks: "key_of s3 = key_of ?s1" using f3(1) p(4) by (simp add: key_of_def fun_eq_iff)
    have kn: "key_of ?s1 ?n = v" by (simp add: key_of_def)
    have "sorted_wrt (<) (map (key_of ?s1) (cleft c' @ cright c'))" using srt1 io by simp
    then have srt: "sorted_wrt (<) (map (key_of ?s1) (cleft c' @ ?n # cright c'))"
      using p(8,9) kn by (auto simp: sorted_wrt_append)
    have "valid ?s5 t'"
    proof (rule validI)
      show "shape ?s5 [] t'" using t'(1) shape_set_parent_nil[of ?s4 "last (inorder t')" "[]" t'] by simp
      show "\<forall>a\<in>set (inorder t'). a < t_alloc ?s5 \<and> a \<noteq> NULL"
        using v(2) nf io f3 p(7) unfolding t'(2) by (auto simp flip: set_inorder intro: less_SucI)
      show "t_nil ?s5 < t_alloc ?s5" "t_nil ?s5 \<noteq> NULL" using v(3,4) f3 p by simp_all
      show "t_size ?s5 = length (inorder t')" using f3 p v(5) io unfolding t'(2) by (simp flip: length_inorder)
      show "invc (color_of ?s5) t'" "invh (color_of ?s5) t'" "rcol (color_of ?s5) t' = BLACK"
        using t' by simp_all
      show "color_of ?s5 (t_nil ?s5) = BLACK" using f3 by simp
      show "sorted_wrt (<) (map (key_of ?s5) (inorder t'))" using srt by (simp add: ks t'(2))
      show "t' \<noteq> \<langle>\<rangle> \<longrightarrow> parent_of ?s5 (t_nil ?s5) = last (inorder t')" by simp
    qed
    moreover have "value_of ?s5 = (value_of s)(?n := Some v)" "t_nil ?s5 = t_nil s"
      "t_alloc ?s5 = Suc ?n" "t_size ?s5 = Suc (t_size s)" using f3 p by simp_all
    ultimately show ?thesis using res io t'(2)
      by (intro exI[of _ ?s5] exI[of _ t'] exI[of _ "cleft c'"] exI[of _ "cright c'"]) simp
  qed
qed

lemma insert_rb_dup:
  assumes "valid s t" "t_size s < fuel" "v \<in> key_of s ` set_tree t"
  defines "s1 \<equiv> set_value (t_alloc s) (Some v) (s\<lparr>t_alloc := Suc (t_alloc s)\<rparr>)"
  shows "\<exists>r. insert_rb fuel v NULL s = Some (s1, r, False) \<and> r \<in> set_tree t \<and> key_of s r = v"
    and "valid s1 t"
proof -
  let ?n = "t_alloc s"
  have mk: "make_node v s = (?n, s1)" by (simp add: make_node_def allocate_def s1_def)
  have v: "shape s [] t" "\<forall>a \<in> set_tree t. a < ?n \<and> a \<noteq> NULL" "t_nil s < ?n" "t_nil s \<noteq> NULL"
    "t_size s = size t" "invc (color_of s) t" "invh (color_of s) t" "rcol (color_of s) t = BLACK"
    "color_of s (t_nil s) = BLACK" "sorted_wrt (<) (map (key_of s) (inorder t))"
    "t \<noteq> Leaf \<longrightarrow> parent_of s (t_nil s) = last (inorder t)"
    using assms(1) by (simp_all add: valid_def wf_def)
  have nf: "?n \<notin> set_tree t" "?n \<noteq> t_nil s" "?n \<noteq> NULL" using v(2,3) by (auto simp: NULL_def)
  have sh1: "shape s1 [] t" using v(1) nf by (simp add: shape_set_value s1_def)
  have k1: "\<forall>a \<in> set_tree t. key_of s1 a = key_of s a" using nf by (auto simp: key_of_def s1_def)
  have meq: "map (key_of s1) (inorder t) = map (key_of s) (inorder t)"
    using k1 by (intro map_cong) (auto simp flip: set_inorder)
  show "valid s1 t"
    using v nf sh1 unfolding meq[symmetric]
    by (intro validI) (auto simp: s1_def length_inorder intro: less_SucI)
  have tn: "t \<noteq> Leaf" using assms(3) by auto
  then have sz: "t_size s1 \<noteq> 0" using v(5) by (cases t) (simp_all add: s1_def)
  have ht: "height t \<le> fuel" using height_le_size_tree[of t] v(5) assms(2) by simp
  have srt1: "sorted_wrt (<) (map (key_of s1) (cleft [] @ inorder t @ cright []))"
    unfolding cleft.simps cright.simps append_Nil append_Nil2 meq using v(10) .
  have nf': "?n \<notin> set (cleft [] @ inorder t @ cright [])" using nf by simp
  have vs: "value_of s1 ?n = Some v" by (simp add: s1_def)
  have vn: "v \<in> key_of s1 ` set_tree t" using assms(3) k1 by (auto simp: image_iff)
  have n1: "?n \<noteq> t_nil s1" using nf by (simp add: s1_def)
  from get_position_correct[OF sh1 tn vs nf' n1 srt1 _ _ ht] vn
  obtain pos where "pos \<in> set_tree t" "key_of s1 pos = v"
     "get_position fuel (rootp (t_nil s1) t) ?n s1 = Some (s1, pos, False)" by auto
  moreover have rt: "t_root s1 = rootp (t_nil s1) t" using sh1 by (simp add: shape_def)
  ultimately show "\<exists>r. insert_rb fuel v NULL s = Some (s1, r, False) \<and> r \<in> set_tree t \<and> key_of s r = v"
    using sz k1 by (intro exI[of _ pos]) (simp add: insert_rb_def mk Let_def)
qed

declare delete_case1.simps [simp del] delete_case2.simps [simp del] delete_case3.simps [simp del]

lemma get_sibling_rotate [simp]:
  "t_nil (delete_case6 x s) = t_nil s" "t_size (delete_case6 x s) = t_size s"
  "t_alloc (delete_case6 x s) = t_alloc s" "value_of (delete_case6 x s) = value_of s"
  "t_nil (delete_case5 x s) = t_nil s" "t_size (delete_case5 x s) = t_size s"
  "t_alloc (delete_case5 x s) = t_alloc s" "value_of (delete_case5 x s) = value_of s"
  "t_nil (delete_case4 x s) = t_nil s" "t_size (delete_case4 x s) = t_size s"
  "t_alloc (delete_case4 x s) = t_alloc s" "value_of (delete_case4 x s) = value_of s"
  by (simp_all add: delete_case6_def delete_case5_def delete_case4_def Let_def)

lemma sibling_L:
  assumes "shape s (InL p \<langle>sl, sb, sr\<rangle> # c) t" "x = rootp (t_nil s) t" "parent_of s x = p"
  shows "get_sibling s x = sb" "leftChild_of s p = x" "leftChild_of s sb = rootp (t_nil s) sl"
    "rightChild_of s sb = rootp (t_nil s) sr" "t_nil s \<notin> set_tree sl" "t_nil s \<notin> set_tree sr"
    "rightChild_of s p = sb" "sb \<noteq> x"
proof -
  have "leftChild_of s p = x \<and> rightChild_of s p = sb \<and> leftChild_of s sb = rootp (t_nil s) sl
    \<and> rightChild_of s sb = rootp (t_nil s) sr \<and> sb \<noteq> t_nil s"
    using assms(1,2) unfolding shape_def by simp
  moreover have "t_nil s \<notin> set_tree sl \<and> t_nil s \<notin> set_tree sr \<and> sb \<notin> set_tree t"
    using shape_nil[OF assms(1)] shape_distinct[OF assms(1)] by auto
  ultimately show "get_sibling s x = sb" "leftChild_of s p = x" "leftChild_of s sb = rootp (t_nil s) sl"
    "rightChild_of s sb = rootp (t_nil s) sr" "t_nil s \<notin> set_tree sl" "t_nil s \<notin> set_tree sr"
    "rightChild_of s p = sb" "sb \<noteq> x"
    using assms(2,3) by (simp_all add: get_sibling_def)
qed

lemma sibling_R:
  assumes "shape s (InR \<langle>sl, sb, sr\<rangle> p # c) t" "x = rootp (t_nil s) t" "parent_of s x = p"
  shows "get_sibling s x = sb" "rightChild_of s p = x" "leftChild_of s sb = rootp (t_nil s) sl"
    "rightChild_of s sb = rootp (t_nil s) sr" "t_nil s \<notin> set_tree sl" "t_nil s \<notin> set_tree sr"
    "leftChild_of s p = sb" "sb \<noteq> x"
proof -
  have "rightChild_of s p = x \<and> leftChild_of s p = sb \<and> leftChild_of s sb = rootp (t_nil s) sl
    \<and> rightChild_of s sb = rootp (t_nil s) sr \<and> sb \<noteq> t_nil s"
    using assms(1,2) unfolding shape_def by simp
  moreover have "t_nil s \<notin> set_tree sl \<and> t_nil s \<notin> set_tree sr \<and> sb \<notin> set_tree t"
    using shape_nil[OF assms(1)] shape_distinct[OF assms(1)] by auto
  ultimately show "get_sibling s x = sb" "rightChild_of s p = x" "leftChild_of s sb = rootp (t_nil s) sl"
    "rightChild_of s sb = rootp (t_nil s) sr" "t_nil s \<notin> set_tree sl" "t_nil s \<notin> set_tree sr"
    "leftChild_of s p = sb" "sb \<noteq> x"
    using assms(2,3) by (simp_all add: get_sibling_def)
qed

lemma delete_case4_L4:
  assumes "shape s (InL p \<langle>sl, sb, sr\<rangle> # c) t" "x = rootp (t_nil s) t" "parent_of s x = p"
    "color_of s (t_nil s) = BLACK" "color_of s p = RED" "color_of s sb = BLACK"
    "rcol (color_of s) sl = BLACK" "rcol (color_of s) sr = BLACK"
  shows "delete_case4 x s = set_color p BLACK (set_color sb RED s)"
  using sibling_L[OF assms(1-3)] assms(3-) by (simp add: delete_case4_def Let_def)

lemma delete_case4_R4:
  assumes "shape s (InR \<langle>sl, sb, sr\<rangle> p # c) t" "x = rootp (t_nil s) t" "parent_of s x = p"
    "color_of s (t_nil s) = BLACK" "color_of s p = RED" "color_of s sb = BLACK"
    "rcol (color_of s) sl = BLACK" "rcol (color_of s) sr = BLACK"
  shows "delete_case4 x s = set_color p BLACK (set_color sb RED s)"
  using sibling_R[OF assms(1-3)] assms(3-) by (simp add: delete_case4_def Let_def)

lemma delete_case4_L6:
  assumes "shape s (InL p \<langle>sl, sb, \<langle>C, d, D\<rangle>\<rangle> # c) t" "x = rootp (t_nil s) t" "parent_of s x = p"
    "color_of s (t_nil s) = BLACK" "color_of s sb = BLACK" "color_of s d = RED"
  shows "shape (delete_case4 x s) c \<langle>\<langle>t, p, sl\<rangle>, sb, \<langle>C, d, D\<rangle>\<rangle>"
    and "color_of (delete_case4 x s) = (color_of s)(sb := color_of s p, p := BLACK, d := BLACK)"
proof -
  note sb = sibling_L[OF assms(1-3)]
  let ?s1 = "set_color d BLACK (set_color p BLACK (set_color sb (color_of s p) s))"
  have eq: "delete_case4 x s = rotate_left p ?s1"
    using sb assms(3-) by (simp add: delete_case4_def delete_case5_def delete_case6_def Let_def)
  have "shape ?s1 c \<langle>t, p, \<langle>sl, sb, \<langle>C, d, D\<rangle>\<rangle>\<rangle>" using assms(1) by (simp add: shape_step)
  then show "shape (delete_case4 x s) c \<langle>\<langle>t, p, sl\<rangle>, sb, \<langle>C, d, D\<rangle>\<rangle>"
    unfolding eq by (rule rotate_left_shape)
  show "color_of (delete_case4 x s) = (color_of s)(sb := color_of s p, p := BLACK, d := BLACK)"
    unfolding eq by simp
qed

lemma delete_case4_R6:
  assumes "shape s (InR \<langle>\<langle>C, d, D\<rangle>, sb, sr\<rangle> p # c) t" "x = rootp (t_nil s) t" "parent_of s x = p"
    "color_of s (t_nil s) = BLACK" "color_of s sb = BLACK" "color_of s d = RED"
  shows "shape (delete_case4 x s) c \<langle>\<langle>C, d, D\<rangle>, sb, \<langle>sr, p, t\<rangle>\<rangle>"
    and "color_of (delete_case4 x s) = (color_of s)(sb := color_of s p, p := BLACK, d := BLACK)"
proof -
  note sb = sibling_R[OF assms(1-3)]
  let ?s1 = "set_color d BLACK (set_color p BLACK (set_color sb (color_of s p) s))"
  have eq: "delete_case4 x s = rotate_right p ?s1"
    using sb assms(3-) by (simp add: delete_case4_def delete_case5_def delete_case6_def Let_def)
  have "shape ?s1 c \<langle>\<langle>\<langle>C, d, D\<rangle>, sb, sr\<rangle>, p, t\<rangle>" using assms(1) by (simp add: shape_step)
  then show "shape (delete_case4 x s) c \<langle>\<langle>C, d, D\<rangle>, sb, \<langle>sr, p, t\<rangle>\<rangle>"
    unfolding eq by (rule rotate_right_shape)
  show "color_of (delete_case4 x s) = (color_of s)(sb := color_of s p, p := BLACK, d := BLACK)"
    unfolding eq by simp
qed


lemma delete_case4_L5:
  assumes "shape s (InL p \<langle>\<langle>A, a, B\<rangle>, sb, sr\<rangle> # c) t" "x = rootp (t_nil s) t" "parent_of s x = p"
    "color_of s (t_nil s) = BLACK" "color_of s sb = BLACK" "color_of s a = RED"
    "rcol (color_of s) sr = BLACK"
  shows "shape (delete_case4 x s) c \<langle>\<langle>t, p, A\<rangle>, a, \<langle>B, sb, sr\<rangle>\<rangle>"
    and "color_of (delete_case4 x s) = (color_of s)(a := color_of s p, p := BLACK, sb := BLACK)"
proof -
  note sb = sibling_L[OF assms(1-3)]
  let ?s1 = "rotate_right sb (set_color a BLACK (set_color sb RED s))"
  have d: "distinct (cleft c @ inorder t @ p # (inorder A @ a # inorder B @ sb # inorder sr) @ cright c)"
    using shape_distinct[OF assms(1)] by simp
  have ne: "a \<noteq> sb" "a \<noteq> p" "sb \<noteq> p" "a \<noteq> x" "a \<noteq> t_nil s" "p \<noteq> t_nil s"
    using d shape_nil[OF assms(1)] assms(2) by (cases t; auto)+
  have sh0: "shape (set_color a BLACK (set_color sb RED s)) (InR t p # c) \<langle>\<langle>A, a, B\<rangle>, sb, sr\<rangle>"
    using assms(1) by (simp add: shape_step)
  have sh1: "shape ?s1 (InR t p # c) \<langle>A, a, \<langle>B, sb, sr\<rangle>\<rangle>"
    by (rule rotate_right_shape[OF sh0])
  then have sh1': "shape ?s1 (InL p \<langle>A, a, \<langle>B, sb, sr\<rangle>\<rangle> # c) t" by (simp add: shape_step)
  have par: "parent_of ?s1 x = p"
  proof (cases t)
    case Leaf
    then show ?thesis using rotate_right_nilparent[OF sh0] assms(2,3) by simp
  next
    case (Node l v r)
    then show ?thesis using sh1' assms(2) unfolding shape_def by simp
  qed
  have x1: "x = rootp (t_nil ?s1) t" using assms(2) by simp
  note sb1 = sibling_L[OF sh1' x1 par]
  have c5: "delete_case5 x s = delete_case6 x ?s1"
    using sb assms(3-) ne by (simp add: delete_case5_def Let_def)
  let ?s2 = "set_color sb BLACK (set_color p BLACK (set_color a (color_of s p) ?s1))"
  have c6: "delete_case6 x ?s1 = rotate_left p ?s2"
    using sb1 par ne by (simp add: delete_case6_def Let_def)
  have eq: "delete_case4 x s = rotate_left p ?s2"
    using sb assms(3-) ne c5 c6 by (simp add: delete_case4_def Let_def)
  have "shape ?s2 c \<langle>t, p, \<langle>A, a, \<langle>B, sb, sr\<rangle>\<rangle>\<rangle>" using sh1' by (simp add: shape_step)
  then show "shape (delete_case4 x s) c \<langle>\<langle>t, p, A\<rangle>, a, \<langle>B, sb, sr\<rangle>\<rangle>"
    unfolding eq by (rule rotate_left_shape)
  show "color_of (delete_case4 x s) = (color_of s)(a := color_of s p, p := BLACK, sb := BLACK)"
    unfolding eq using ne by (auto simp: fun_eq_iff)
qed

lemma delete_case4_R5:
  assumes "shape s (InR \<langle>sl, sb, \<langle>A, a, B\<rangle>\<rangle> p # c) t" "x = rootp (t_nil s) t" "parent_of s x = p"
    "color_of s (t_nil s) = BLACK" "color_of s sb = BLACK" "color_of s a = RED"
    "rcol (color_of s) sl = BLACK"
  shows "shape (delete_case4 x s) c \<langle>\<langle>sl, sb, A\<rangle>, a, \<langle>B, p, t\<rangle>\<rangle>"
    and "color_of (delete_case4 x s) = (color_of s)(a := color_of s p, p := BLACK, sb := BLACK)"
proof -
  note sb = sibling_R[OF assms(1-3)]
  let ?s1 = "rotate_left sb (set_color a BLACK (set_color sb RED s))"
  have d: "distinct (cleft c @ (inorder sl @ sb # inorder A @ a # inorder B) @ p # inorder t @ cright c)"
    using shape_distinct[OF assms(1)] by simp
  have ne: "a \<noteq> sb" "a \<noteq> p" "sb \<noteq> p" "a \<noteq> x" "a \<noteq> t_nil s" "p \<noteq> t_nil s" "p \<noteq> x"
    using d shape_nil[OF assms(1)] assms(2) by (cases t; auto)+
  have sh0: "shape (set_color a BLACK (set_color sb RED s)) (InL p t # c) \<langle>sl, sb, \<langle>A, a, B\<rangle>\<rangle>"
    using assms(1) by (simp add: shape_step)
  have sh1: "shape ?s1 (InL p t # c) \<langle>\<langle>sl, sb, A\<rangle>, a, B\<rangle>"
    by (rule rotate_left_shape[OF sh0])
  then have sh1': "shape ?s1 (InR \<langle>\<langle>sl, sb, A\<rangle>, a, B\<rangle> p # c) t" by (simp add: shape_step)
  have par: "parent_of ?s1 x = p"
  proof (cases t)
    case Leaf
    then show ?thesis using rotate_left_nilparent[OF sh0] assms(2,3) by simp
  next
    case (Node l v r)
    then show ?thesis using sh1' assms(2) unfolding shape_def by simp
  qed
  have x1: "x = rootp (t_nil ?s1) t" using assms(2) by simp
  note sb1 = sibling_R[OF sh1' x1 par]
  have c5: "delete_case5 x s = delete_case6 x ?s1"
    using sb assms(3-) ne by (simp add: delete_case5_def Let_def)
  let ?s2 = "set_color sb BLACK (set_color p BLACK (set_color a (color_of s p) ?s1))"
  have c6: "delete_case6 x ?s1 = rotate_right p ?s2"
    using sb1 par ne by (simp add: delete_case6_def Let_def)
  have eq: "delete_case4 x s = rotate_right p ?s2"
    using sb assms(3-) ne c5 c6 by (simp add: delete_case4_def Let_def)
  have "shape ?s2 c \<langle>\<langle>\<langle>sl, sb, A\<rangle>, a, B\<rangle>, p, t\<rangle>" using sh1' by (simp add: shape_step)
  then show "shape (delete_case4 x s) c \<langle>\<langle>sl, sb, A\<rangle>, a, \<langle>B, p, t\<rangle>\<rangle>"
    unfolding eq by (rule rotate_right_shape)
  show "color_of (delete_case4 x s) = (color_of s)(a := color_of s p, p := BLACK, sb := BLACK)"
    unfolding eq using ne by (auto simp: fun_eq_iff)
qed

lemma hd_in: "c \<noteq> [] \<Longrightarrow> fnode (hd c) \<in> set (cleft c) \<union> set (cright c)"
  by (cases c rule: cleft.cases) auto

lemma del_L6_post:
  assumes sh: "shape s (InL p \<langle>sl, sb, \<langle>C, d, D\<rangle>\<rangle> # c) t"
    and x: "x = rootp (t_nil s) t" "parent_of s x = p"
    and col: "color_of s sb = BLACK" "color_of s d = RED"
      "invc (color_of s) t" "invh (color_of s) t" "rcol (color_of s) t = BLACK"
      "cinvc (color_of s) (InL p \<langle>sl, sb, \<langle>C, d, D\<rangle>\<rangle> # c)"
      "cinvh (color_of s) (InL p \<langle>sl, sb, \<langle>C, d, D\<rangle>\<rangle> # c) (Suc (bh (color_of s) t))"
      "color_of s (ctop p c) = BLACK"
      "color_of s (t_nil s) = BLACK"
  shows "fix_post s (delete_case4 x s)
     (cleft (InL p \<langle>sl, sb, \<langle>C, d, D\<rangle>\<rangle> # c) @ inorder t @ cright (InL p \<langle>sl, sb, \<langle>C, d, D\<rangle>\<rangle> # c))"
proof -
  note r = delete_case4_L6[OF sh x col(9,1,2)]
  note d = shape_distinct[OF sh]
  have nl: "t_nil s \<noteq> p" "t_nil s \<noteq> sb" "t_nil s \<noteq> d" using shape_nil[OF sh] by auto
  have ni: "p \<notin> set (cleft c)"
    "p \<notin> set (cright c)"
    "p \<notin> set_tree t"
    "p \<notin> set_tree sl"
    "p \<notin> set_tree C"
    "p \<notin> set_tree D"
    "sb \<notin> set (cleft c)"
    "sb \<notin> set (cright c)"
    "sb \<notin> set_tree t"
    "sb \<notin> set_tree sl"
    "sb \<notin> set_tree C"
    "sb \<notin> set_tree D"
    "d \<notin> set (cleft c)"
    "d \<notin> set (cright c)"
    "d \<notin> set_tree t"
    "d \<notin> set_tree sl"
    "d \<notin> set_tree C"
    "d \<notin> set_tree D"
    "p \<noteq> sb"
    "p \<noteq> d"
    "sb \<noteq> d"
    using d by auto
  have top: "c \<noteq> [] \<longrightarrow> ctop p c \<noteq> p \<and> ctop p c \<noteq> sb \<and> ctop p c \<noteq> d"
    "c \<noteq> [] \<longrightarrow> fnode (hd c) \<noteq> p \<and> fnode (hd c) \<noteq> sb \<and> fnode (hd c) \<noteq> d"
    "c = [] \<longrightarrow> color_of s p = BLACK"
    using ni ctop_in[of c p] hd_in[of c] col by auto
  show ?thesis
  proof (rule fix_postI[where c = c and u = "\<langle>\<langle>t, p, sl\<rangle>, sb, \<langle>C, d, D\<rangle>\<rangle>"])
    show "shape (delete_case4 x s) c \<langle>\<langle>t, p, sl\<rangle>, sb, \<langle>C, d, D\<rangle>\<rangle>" by (rule r(1))
    show "cinvc (color_of (delete_case4 x s)) c" unfolding r(2) using col ni by simp
    show "cinvh (color_of (delete_case4 x s)) c (bh (color_of (delete_case4 x s)) \<langle>\<langle>t, p, sl\<rangle>, sb, \<langle>C, d, D\<rangle>\<rangle>)"
      unfolding r(2) using col ni by auto
    show "invc (color_of (delete_case4 x s)) \<langle>\<langle>t, p, sl\<rangle>, sb, \<langle>C, d, D\<rangle>\<rangle>"
      unfolding r(2) using col ni by simp
    show "invh (color_of (delete_case4 x s)) \<langle>\<langle>t, p, sl\<rangle>, sb, \<langle>C, d, D\<rangle>\<rangle>"
      unfolding r(2) using col ni by auto
    show "c \<noteq> [] \<and> color_of (delete_case4 x s) (fnode (hd c)) = RED \<longrightarrow>
      rcol (color_of (delete_case4 x s)) \<langle>\<langle>t, p, sl\<rangle>, sb, \<langle>C, d, D\<rangle>\<rangle> = BLACK"
      unfolding r(2) using col ni top by auto
    show "rcol (color_of (delete_case4 x s)) (plug c \<langle>\<langle>t, p, sl\<rangle>, sb, \<langle>C, d, D\<rangle>\<rangle>) = BLACK"
      unfolding r(2) using col ni top by (simp add: rcol_plug_if[where h = p])
    show "color_of (delete_case4 x s) (t_nil s) = BLACK" unfolding r(2) using col nl by simp
  qed simp_all
qed

lemma del_R6_post:
  assumes sh: "shape s (InR \<langle>\<langle>C, d, D\<rangle>, sb, sr\<rangle> p # c) t"
    and x: "x = rootp (t_nil s) t" "parent_of s x = p"
    and col: "color_of s sb = BLACK" "color_of s d = RED"
      "invc (color_of s) t" "invh (color_of s) t" "rcol (color_of s) t = BLACK"
      "cinvc (color_of s) (InR \<langle>\<langle>C, d, D\<rangle>, sb, sr\<rangle> p # c)"
      "cinvh (color_of s) (InR \<langle>\<langle>C, d, D\<rangle>, sb, sr\<rangle> p # c) (Suc (bh (color_of s) t))"
      "color_of s (ctop p c) = BLACK"
      "color_of s (t_nil s) = BLACK"
  shows "fix_post s (delete_case4 x s)
     (cleft (InR \<langle>\<langle>C, d, D\<rangle>, sb, sr\<rangle> p # c) @ inorder t @ cright (InR \<langle>\<langle>C, d, D\<rangle>, sb, sr\<rangle> p # c))"
proof -
  note r = delete_case4_R6[OF sh x col(9,1,2)]
  note d = shape_distinct[OF sh]
  have nl: "t_nil s \<noteq> p" "t_nil s \<noteq> sb" "t_nil s \<noteq> d" using shape_nil[OF sh] by auto
  have ni: "p \<notin> set (cleft c)"
    "p \<notin> set (cright c)"
    "p \<notin> set_tree t"
    "p \<notin> set_tree sr"
    "p \<notin> set_tree C"
    "p \<notin> set_tree D"
    "sb \<notin> set (cleft c)"
    "sb \<notin> set (cright c)"
    "sb \<notin> set_tree t"
    "sb \<notin> set_tree sr"
    "sb \<notin> set_tree C"
    "sb \<notin> set_tree D"
    "d \<notin> set (cleft c)"
    "d \<notin> set (cright c)"
    "d \<notin> set_tree t"
    "d \<notin> set_tree sr"
    "d \<notin> set_tree C"
    "d \<notin> set_tree D"
    "p \<noteq> sb"
    "p \<noteq> d"
    "sb \<noteq> d"
    using d by auto
  have top: "c \<noteq> [] \<longrightarrow> ctop p c \<noteq> p \<and> ctop p c \<noteq> sb \<and> ctop p c \<noteq> d"
    "c \<noteq> [] \<longrightarrow> fnode (hd c) \<noteq> p \<and> fnode (hd c) \<noteq> sb \<and> fnode (hd c) \<noteq> d"
    "c = [] \<longrightarrow> color_of s p = BLACK"
    using ni ctop_in[of c p] hd_in[of c] col by auto
  show ?thesis
  proof (rule fix_postI[where c = c and u = "\<langle>\<langle>C, d, D\<rangle>, sb, \<langle>sr, p, t\<rangle>\<rangle>"])
    show "shape (delete_case4 x s) c \<langle>\<langle>C, d, D\<rangle>, sb, \<langle>sr, p, t\<rangle>\<rangle>" by (rule r(1))
    show "cinvc (color_of (delete_case4 x s)) c" unfolding r(2) using col ni by simp
    show "cinvh (color_of (delete_case4 x s)) c (bh (color_of (delete_case4 x s)) \<langle>\<langle>C, d, D\<rangle>, sb, \<langle>sr, p, t\<rangle>\<rangle>)"
      unfolding r(2) using col ni by auto
    show "invc (color_of (delete_case4 x s)) \<langle>\<langle>C, d, D\<rangle>, sb, \<langle>sr, p, t\<rangle>\<rangle>"
      unfolding r(2) using col ni by simp
    show "invh (color_of (delete_case4 x s)) \<langle>\<langle>C, d, D\<rangle>, sb, \<langle>sr, p, t\<rangle>\<rangle>"
      unfolding r(2) using col ni by auto
    show "c \<noteq> [] \<and> color_of (delete_case4 x s) (fnode (hd c)) = RED \<longrightarrow>
      rcol (color_of (delete_case4 x s)) \<langle>\<langle>C, d, D\<rangle>, sb, \<langle>sr, p, t\<rangle>\<rangle> = BLACK"
      unfolding r(2) using col ni top by auto
    show "rcol (color_of (delete_case4 x s)) (plug c \<langle>\<langle>C, d, D\<rangle>, sb, \<langle>sr, p, t\<rangle>\<rangle>) = BLACK"
      unfolding r(2) using col ni top by (simp add: rcol_plug_if[where h = p])
    show "color_of (delete_case4 x s) (t_nil s) = BLACK" unfolding r(2) using col nl by simp
  qed simp_all
qed

lemma del_L5_post:
  assumes sh: "shape s (InL p \<langle>\<langle>A, a, B\<rangle>, sb, sr\<rangle> # c) t"
    and x: "x = rootp (t_nil s) t" "parent_of s x = p"
    and col: "color_of s sb = BLACK" "color_of s a = RED" "rcol (color_of s) sr = BLACK"
      "invc (color_of s) t" "invh (color_of s) t" "rcol (color_of s) t = BLACK"
      "cinvc (color_of s) (InL p \<langle>\<langle>A, a, B\<rangle>, sb, sr\<rangle> # c)"
      "cinvh (color_of s) (InL p \<langle>\<langle>A, a, B\<rangle>, sb, sr\<rangle> # c) (Suc (bh (color_of s) t))"
      "color_of s (ctop p c) = BLACK"
      "color_of s (t_nil s) = BLACK"
  shows "fix_post s (delete_case4 x s)
     (cleft (InL p \<langle>\<langle>A, a, B\<rangle>, sb, sr\<rangle> # c) @ inorder t @ cright (InL p \<langle>\<langle>A, a, B\<rangle>, sb, sr\<rangle> # c))"
proof -
  note r = delete_case4_L5[OF sh x col(10,1,2,3)]
  note d = shape_distinct[OF sh]
  have nl: "t_nil s \<noteq> p" "t_nil s \<noteq> sb" "t_nil s \<noteq> a" using shape_nil[OF sh] by auto
  have ni: "p \<notin> set (cleft c)"
    "p \<notin> set (cright c)"
    "p \<notin> set_tree t"
    "p \<notin> set_tree sr"
    "p \<notin> set_tree A"
    "p \<notin> set_tree B"
    "sb \<notin> set (cleft c)"
    "sb \<notin> set (cright c)"
    "sb \<notin> set_tree t"
    "sb \<notin> set_tree sr"
    "sb \<notin> set_tree A"
    "sb \<notin> set_tree B"
    "a \<notin> set (cleft c)"
    "a \<notin> set (cright c)"
    "a \<notin> set_tree t"
    "a \<notin> set_tree sr"
    "a \<notin> set_tree A"
    "a \<notin> set_tree B"
    "p \<noteq> sb"
    "p \<noteq> a"
    "sb \<noteq> a"
    using d by auto
  have top: "c \<noteq> [] \<longrightarrow> ctop p c \<noteq> p \<and> ctop p c \<noteq> sb \<and> ctop p c \<noteq> a"
    "c \<noteq> [] \<longrightarrow> fnode (hd c) \<noteq> p \<and> fnode (hd c) \<noteq> sb \<and> fnode (hd c) \<noteq> a"
    "c = [] \<longrightarrow> color_of s p = BLACK"
    using ni ctop_in[of c p] hd_in[of c] col by auto
  show ?thesis
  proof (rule fix_postI[where c = c and u = "\<langle>\<langle>t, p, A\<rangle>, a, \<langle>B, sb, sr\<rangle>\<rangle>"])
    show "shape (delete_case4 x s) c \<langle>\<langle>t, p, A\<rangle>, a, \<langle>B, sb, sr\<rangle>\<rangle>" by (rule r(1))
    show "cinvc (color_of (delete_case4 x s)) c" unfolding r(2) using col ni by simp
    show "cinvh (color_of (delete_case4 x s)) c (bh (color_of (delete_case4 x s)) \<langle>\<langle>t, p, A\<rangle>, a, \<langle>B, sb, sr\<rangle>\<rangle>)"
      unfolding r(2) using col ni by auto
    show "invc (color_of (delete_case4 x s)) \<langle>\<langle>t, p, A\<rangle>, a, \<langle>B, sb, sr\<rangle>\<rangle>"
      unfolding r(2) using col ni by simp
    show "invh (color_of (delete_case4 x s)) \<langle>\<langle>t, p, A\<rangle>, a, \<langle>B, sb, sr\<rangle>\<rangle>"
      unfolding r(2) using col ni by auto
    show "c \<noteq> [] \<and> color_of (delete_case4 x s) (fnode (hd c)) = RED \<longrightarrow>
      rcol (color_of (delete_case4 x s)) \<langle>\<langle>t, p, A\<rangle>, a, \<langle>B, sb, sr\<rangle>\<rangle> = BLACK"
      unfolding r(2) using col ni top by auto
    show "rcol (color_of (delete_case4 x s)) (plug c \<langle>\<langle>t, p, A\<rangle>, a, \<langle>B, sb, sr\<rangle>\<rangle>) = BLACK"
      unfolding r(2) using col ni top by (simp add: rcol_plug_if[where h = p])
    show "color_of (delete_case4 x s) (t_nil s) = BLACK" unfolding r(2) using col nl by simp
  qed simp_all
qed

lemma del_R5_post:
  assumes sh: "shape s (InR \<langle>sl, sb, \<langle>A, a, B\<rangle>\<rangle> p # c) t"
    and x: "x = rootp (t_nil s) t" "parent_of s x = p"
    and col: "color_of s sb = BLACK" "color_of s a = RED" "rcol (color_of s) sl = BLACK"
      "invc (color_of s) t" "invh (color_of s) t" "rcol (color_of s) t = BLACK"
      "cinvc (color_of s) (InR \<langle>sl, sb, \<langle>A, a, B\<rangle>\<rangle> p # c)"
      "cinvh (color_of s) (InR \<langle>sl, sb, \<langle>A, a, B\<rangle>\<rangle> p # c) (Suc (bh (color_of s) t))"
      "color_of s (ctop p c) = BLACK"
      "color_of s (t_nil s) = BLACK"
  shows "fix_post s (delete_case4 x s)
     (cleft (InR \<langle>sl, sb, \<langle>A, a, B\<rangle>\<rangle> p # c) @ inorder t @ cright (InR \<langle>sl, sb, \<langle>A, a, B\<rangle>\<rangle> p # c))"
proof -
  note r = delete_case4_R5[OF sh x col(10,1,2,3)]
  note d = shape_distinct[OF sh]
  have nl: "t_nil s \<noteq> p" "t_nil s \<noteq> sb" "t_nil s \<noteq> a" using shape_nil[OF sh] by auto
  have ni: "p \<notin> set (cleft c)"
    "p \<notin> set (cright c)"
    "p \<notin> set_tree t"
    "p \<notin> set_tree sl"
    "p \<notin> set_tree A"
    "p \<notin> set_tree B"
    "sb \<notin> set (cleft c)"
    "sb \<notin> set (cright c)"
    "sb \<notin> set_tree t"
    "sb \<notin> set_tree sl"
    "sb \<notin> set_tree A"
    "sb \<notin> set_tree B"
    "a \<notin> set (cleft c)"
    "a \<notin> set (cright c)"
    "a \<notin> set_tree t"
    "a \<notin> set_tree sl"
    "a \<notin> set_tree A"
    "a \<notin> set_tree B"
    "p \<noteq> sb"
    "p \<noteq> a"
    "sb \<noteq> a"
    using d by auto
  have top: "c \<noteq> [] \<longrightarrow> ctop p c \<noteq> p \<and> ctop p c \<noteq> sb \<and> ctop p c \<noteq> a"
    "c \<noteq> [] \<longrightarrow> fnode (hd c) \<noteq> p \<and> fnode (hd c) \<noteq> sb \<and> fnode (hd c) \<noteq> a"
    "c = [] \<longrightarrow> color_of s p = BLACK"
    using ni ctop_in[of c p] hd_in[of c] col by auto
  show ?thesis
  proof (rule fix_postI[where c = c and u = "\<langle>\<langle>sl, sb, A\<rangle>, a, \<langle>B, p, t\<rangle>\<rangle>"])
    show "shape (delete_case4 x s) c \<langle>\<langle>sl, sb, A\<rangle>, a, \<langle>B, p, t\<rangle>\<rangle>" by (rule r(1))
    show "cinvc (color_of (delete_case4 x s)) c" unfolding r(2) using col ni by simp
    show "cinvh (color_of (delete_case4 x s)) c (bh (color_of (delete_case4 x s)) \<langle>\<langle>sl, sb, A\<rangle>, a, \<langle>B, p, t\<rangle>\<rangle>)"
      unfolding r(2) using col ni by auto
    show "invc (color_of (delete_case4 x s)) \<langle>\<langle>sl, sb, A\<rangle>, a, \<langle>B, p, t\<rangle>\<rangle>"
      unfolding r(2) using col ni by simp
    show "invh (color_of (delete_case4 x s)) \<langle>\<langle>sl, sb, A\<rangle>, a, \<langle>B, p, t\<rangle>\<rangle>"
      unfolding r(2) using col ni by auto
    show "c \<noteq> [] \<and> color_of (delete_case4 x s) (fnode (hd c)) = RED \<longrightarrow>
      rcol (color_of (delete_case4 x s)) \<langle>\<langle>sl, sb, A\<rangle>, a, \<langle>B, p, t\<rangle>\<rangle> = BLACK"
      unfolding r(2) using col ni top by auto
    show "rcol (color_of (delete_case4 x s)) (plug c \<langle>\<langle>sl, sb, A\<rangle>, a, \<langle>B, p, t\<rangle>\<rangle>) = BLACK"
      unfolding r(2) using col ni top by (simp add: rcol_plug_if[where h = p])
    show "color_of (delete_case4 x s) (t_nil s) = BLACK" unfolding r(2) using col nl by simp
  qed simp_all
qed

lemma del_L4_post:
  assumes sh: "shape s (InL p \<langle>sl, sb, sr\<rangle> # c) t"
    and x: "x = rootp (t_nil s) t" "parent_of s x = p"
    and col: "color_of s p = RED" "color_of s sb = BLACK" "rcol (color_of s) sl = BLACK" "rcol (color_of s) sr = BLACK"
      "invc (color_of s) t" "invh (color_of s) t" "rcol (color_of s) t = BLACK"
      "cinvc (color_of s) (InL p \<langle>sl, sb, sr\<rangle> # c)"
      "cinvh (color_of s) (InL p \<langle>sl, sb, sr\<rangle> # c) (Suc (bh (color_of s) t))"
      "color_of s (ctop p c) = BLACK"
      "color_of s (t_nil s) = BLACK"
  shows "fix_post s (delete_case4 x s)
     (cleft (InL p \<langle>sl, sb, sr\<rangle> # c) @ inorder t @ cright (InL p \<langle>sl, sb, sr\<rangle> # c))"
proof -
  note r0 = delete_case4_L4[OF sh x col(11,1,2,3,4)]
  have r: "shape (delete_case4 x s) (InL p \<langle>sl, sb, sr\<rangle> # c) t"
    "color_of (delete_case4 x s) = (color_of s)(sb := RED, p := BLACK)"
    unfolding r0 using sh by simp_all
  note d = shape_distinct[OF sh]
  have nl: "t_nil s \<noteq> p" "t_nil s \<noteq> sb" using shape_nil[OF sh] by auto
  have ni: "p \<notin> set (cleft c)"
    "p \<notin> set (cright c)"
    "p \<notin> set_tree t"
    "p \<notin> set_tree sl"
    "p \<notin> set_tree sr"
    "sb \<notin> set (cleft c)"
    "sb \<notin> set (cright c)"
    "sb \<notin> set_tree t"
    "sb \<notin> set_tree sl"
    "sb \<notin> set_tree sr"
    "p \<noteq> sb"
    using d by auto
  have top: "c \<noteq> [] \<longrightarrow> ctop p c \<noteq> p \<and> ctop p c \<noteq> sb"
    "c \<noteq> [] \<longrightarrow> fnode (hd c) \<noteq> p \<and> fnode (hd c) \<noteq> sb"
    "c = [] \<longrightarrow> color_of s p = BLACK"
    using ni ctop_in[of c p] hd_in[of c] col by auto
  show ?thesis
  proof (rule fix_postI[where c = c and u = "\<langle>t, p, \<langle>sl, sb, sr\<rangle>\<rangle>"])
    show "shape (delete_case4 x s) c \<langle>t, p, \<langle>sl, sb, sr\<rangle>\<rangle>" using r(1) by (simp add: shape_step)
    show "cinvc (color_of (delete_case4 x s)) c" unfolding r(2) using col ni by simp
    show "cinvh (color_of (delete_case4 x s)) c (bh (color_of (delete_case4 x s)) \<langle>t, p, \<langle>sl, sb, sr\<rangle>\<rangle>)"
      unfolding r(2) using col ni by auto
    show "invc (color_of (delete_case4 x s)) \<langle>t, p, \<langle>sl, sb, sr\<rangle>\<rangle>"
      unfolding r(2) using col ni by simp
    show "invh (color_of (delete_case4 x s)) \<langle>t, p, \<langle>sl, sb, sr\<rangle>\<rangle>"
      unfolding r(2) using col ni by auto
    show "c \<noteq> [] \<and> color_of (delete_case4 x s) (fnode (hd c)) = RED \<longrightarrow>
      rcol (color_of (delete_case4 x s)) \<langle>t, p, \<langle>sl, sb, sr\<rangle>\<rangle> = BLACK"
      unfolding r(2) using col ni top by auto
    show "rcol (color_of (delete_case4 x s)) (plug c \<langle>t, p, \<langle>sl, sb, sr\<rangle>\<rangle>) = BLACK"
      unfolding r(2) using col ni top by (simp add: rcol_plug_if[where h = p])
    show "color_of (delete_case4 x s) (t_nil s) = BLACK" unfolding r(2) using col nl by simp
  qed simp_all
qed

lemma del_R4_post:
  assumes sh: "shape s (InR \<langle>sl, sb, sr\<rangle> p # c) t"
    and x: "x = rootp (t_nil s) t" "parent_of s x = p"
    and col: "color_of s p = RED" "color_of s sb = BLACK" "rcol (color_of s) sl = BLACK" "rcol (color_of s) sr = BLACK"
      "invc (color_of s) t" "invh (color_of s) t" "rcol (color_of s) t = BLACK"
      "cinvc (color_of s) (InR \<langle>sl, sb, sr\<rangle> p # c)"
      "cinvh (color_of s) (InR \<langle>sl, sb, sr\<rangle> p # c) (Suc (bh (color_of s) t))"
      "color_of s (ctop p c) = BLACK"
      "color_of s (t_nil s) = BLACK"
  shows "fix_post s (delete_case4 x s)
     (cleft (InR \<langle>sl, sb, sr\<rangle> p # c) @ inorder t @ cright (InR \<langle>sl, sb, sr\<rangle> p # c))"
proof -
  note r0 = delete_case4_R4[OF sh x col(11,1,2,3,4)]
  have r: "shape (delete_case4 x s) (InR \<langle>sl, sb, sr\<rangle> p # c) t"
    "color_of (delete_case4 x s) = (color_of s)(sb := RED, p := BLACK)"
    unfolding r0 using sh by simp_all
  note d = shape_distinct[OF sh]
  have nl: "t_nil s \<noteq> p" "t_nil s \<noteq> sb" using shape_nil[OF sh] by auto
  have ni: "p \<notin> set (cleft c)"
    "p \<notin> set (cright c)"
    "p \<notin> set_tree t"
    "p \<notin> set_tree sl"
    "p \<notin> set_tree sr"
    "sb \<notin> set (cleft c)"
    "sb \<notin> set (cright c)"
    "sb \<notin> set_tree t"
    "sb \<notin> set_tree sl"
    "sb \<notin> set_tree sr"
    "p \<noteq> sb"
    using d by auto
  have top: "c \<noteq> [] \<longrightarrow> ctop p c \<noteq> p \<and> ctop p c \<noteq> sb"
    "c \<noteq> [] \<longrightarrow> fnode (hd c) \<noteq> p \<and> fnode (hd c) \<noteq> sb"
    "c = [] \<longrightarrow> color_of s p = BLACK"
    using ni ctop_in[of c p] hd_in[of c] col by auto
  show ?thesis
  proof (rule fix_postI[where c = c and u = "\<langle>\<langle>sl, sb, sr\<rangle>, p, t\<rangle>"])
    show "shape (delete_case4 x s) c \<langle>\<langle>sl, sb, sr\<rangle>, p, t\<rangle>" using r(1) by (simp add: shape_step)
    show "cinvc (color_of (delete_case4 x s)) c" unfolding r(2) using col ni by simp
    show "cinvh (color_of (delete_case4 x s)) c (bh (color_of (delete_case4 x s)) \<langle>\<langle>sl, sb, sr\<rangle>, p, t\<rangle>)"
      unfolding r(2) using col ni by auto
    show "invc (color_of (delete_case4 x s)) \<langle>\<langle>sl, sb, sr\<rangle>, p, t\<rangle>"
      unfolding r(2) using col ni by simp
    show "invh (color_of (delete_case4 x s)) \<langle>\<langle>sl, sb, sr\<rangle>, p, t\<rangle>"
      unfolding r(2) using col ni by auto
    show "c \<noteq> [] \<and> color_of (delete_case4 x s) (fnode (hd c)) = RED \<longrightarrow>
      rcol (color_of (delete_case4 x s)) \<langle>\<langle>sl, sb, sr\<rangle>, p, t\<rangle> = BLACK"
      unfolding r(2) using col ni top by auto
    show "rcol (color_of (delete_case4 x s)) (plug c \<langle>\<langle>sl, sb, sr\<rangle>, p, t\<rangle>) = BLACK"
      unfolding r(2) using col ni top by (simp add: rcol_plug_if[where h = p])
    show "color_of (delete_case4 x s) (t_nil s) = BLACK" unfolding r(2) using col nl by simp
  qed simp_all
qed

lemma rcol_RED: "rcol col t = RED \<Longrightarrow> \<exists>l a r. t = \<langle>l, a, r\<rangle> \<and> col a = RED"
  by (cases t) auto

lemma delete_case4_post:
  assumes sh: "shape s (f # c) t"
    and x: "x = rootp (t_nil s) t" "parent_of s x = fnode f"
    and S: "fsib f = \<langle>sl, sb, sr\<rangle>" "color_of s sb = BLACK"
    and n3: "\<not> (color_of s (fnode f) = BLACK \<and> rcol (color_of s) sl = BLACK
        \<and> rcol (color_of s) sr = BLACK)"
    and inv: "invc (color_of s) t" "invh (color_of s) t" "rcol (color_of s) t = BLACK"
      "cinvc (color_of s) (f # c)" "cinvh (color_of s) (f # c) (Suc (bh (color_of s) t))"
      "color_of s (ctop (fnode f) c) = BLACK" "color_of s (t_nil s) = BLACK"
  shows "fix_post s (delete_case4 x s) (cleft (f # c) @ inorder t @ cright (f # c))"
proof (cases f)
  case (InL p S')
  then have f: "f = InL p \<langle>sl, sb, sr\<rangle>" using S(1) by simp
  show ?thesis
  proof (cases "rcol (color_of s) sr = RED")
    case True
    then obtain C d D where sr: "sr = \<langle>C, d, D\<rangle>" "color_of s d = RED" using rcol_RED by blast
    show ?thesis using del_L6_post[of s p sl sb C d D c t x] sh x S(2) inv sr unfolding f by simp
  next
    case False
    then have srb: "rcol (color_of s) sr = BLACK" by simp
    show ?thesis
    proof (cases "rcol (color_of s) sl = RED")
      case True
      then obtain A a B where sl: "sl = \<langle>A, a, B\<rangle>" "color_of s a = RED" using rcol_RED by blast
      show ?thesis using del_L5_post[of s p A a B sb sr c t x] sh x S(2) inv sl srb unfolding f by simp
    next
      case False
      then have "rcol (color_of s) sl = BLACK" "color_of s p = RED" using n3 srb f by auto
      then show ?thesis using del_L4_post[of s p sl sb sr c t x] sh x S(2) inv srb unfolding f by simp
    qed
  qed
next
  case (InR S' p)
  then have f: "f = InR \<langle>sl, sb, sr\<rangle> p" using S(1) by simp
  show ?thesis
  proof (cases "rcol (color_of s) sl = RED")
    case True
    then obtain C d D where sl: "sl = \<langle>C, d, D\<rangle>" "color_of s d = RED" using rcol_RED by blast
    show ?thesis using del_R6_post[of s C d D sb sr p c t x] sh x S(2) inv sl unfolding f by simp
  next
    case False
    then have slb: "rcol (color_of s) sl = BLACK" by simp
    show ?thesis
    proof (cases "rcol (color_of s) sr = RED")
      case True
      then obtain A a B where sr: "sr = \<langle>A, a, B\<rangle>" "color_of s a = RED" using rcol_RED by blast
      show ?thesis using del_R5_post[of s sl sb A a B p c t x] sh x S(2) inv sr slb unfolding f by simp
    next
      case False
      then have "rcol (color_of s) sr = BLACK" "color_of s p = RED" using n3 slb f by auto
      then show ?thesis using del_R4_post[of s sl sb sr p c t x] sh x S(2) inv slb unfolding f by simp
    qed
  qed
qed

lemma shape_frame:
  "shape s (f # c) t \<Longrightarrow> value_of s (fnode f) \<noteq> None \<and> fnode f \<noteq> t_nil s
     \<and> parent_of s (fnode f) = cpar (t_nil s) c"
  by (cases f) (simp_all add: shape_def)

lemma sibling_gen:
  assumes "shape s (f # c) t" "x = rootp (t_nil s) t" "parent_of s x = fnode f"
    "fsib f = \<langle>sl, sb, sr\<rangle>"
  shows "get_sibling s x = sb" "leftChild_of s sb = rootp (t_nil s) sl"
    "rightChild_of s sb = rootp (t_nil s) sr" "t_nil s \<notin> set_tree sl" "t_nil s \<notin> set_tree sr"
    "sb \<noteq> x" "sb \<noteq> t_nil s"
  using assms sibling_L[of s "fnode f" sl sb sr c t x] sibling_R[of s sl sb sr "fnode f" c t x]
    shape_nil[OF assms(1)]
  by (cases f; simp)+

lemma del_red_L:
  assumes sh: "shape s (InL p \<langle>sl, sb, sr\<rangle> # c) t"
    and x: "x = rootp (t_nil s) t" "parent_of s x = p"
    and col: "color_of s sb = RED"
      "invc (color_of s) t" "invh (color_of s) t" "rcol (color_of s) t = BLACK"
      "cinvc (color_of s) (InL p \<langle>sl, sb, sr\<rangle> # c)"
      "cinvh (color_of s) (InL p \<langle>sl, sb, sr\<rangle> # c) (Suc (bh (color_of s) t))"
      "color_of s (ctop p c) = BLACK"
      "color_of s (t_nil s) = BLACK"
  shows "\<exists>s'. delete_case2 (Suc k) x s = Some s' \<and> fix_post s s'
     (cleft (InL p \<langle>sl, sb, sr\<rangle> # c) @ inorder t @ cright (InL p \<langle>sl, sb, sr\<rangle> # c))"
proof -
  let ?col = "color_of s"
  note sg = sibling_L[OF sh x]
  note d = shape_distinct[OF sh]
  let ?s0 = "set_color sb BLACK (set_color p RED s)"
  let ?s1 = "rotate_left p ?s0"
  have pb: "?col p = BLACK" and nb: "rcol ?col sl = BLACK" "rcol ?col sr = BLACK"
    using col(1,5) by auto
  have bhs: "bh ?col sl = Suc (bh ?col t)" "bh ?col sr = Suc (bh ?col t)" using col(1,6) by auto
  then obtain sll sn slr where sl: "sl = \<langle>sll, sn, slr\<rangle>" by (cases sl) auto
  have snb: "?col sn = BLACK" using nb sl by simp
  have ni: "p \<notin> set (cleft c)" "p \<notin> set (cright c)" "sb \<notin> set (cleft c)" "sb \<notin> set (cright c)"
    "p \<notin> set_tree t" "sb \<notin> set_tree t" "p \<notin> set_tree sl" "sb \<notin> set_tree sl"
    "p \<notin> set_tree sr" "sb \<notin> set_tree sr" "p \<noteq> sb" "sn \<noteq> p" "sn \<noteq> sb"
    using d sl by auto
  have nl: "t_nil s \<noteq> p" "t_nil s \<noteq> sb" using shape_nil[OF sh] by auto
  have sh0: "shape ?s0 c \<langle>t, p, \<langle>sl, sb, sr\<rangle>\<rangle>" using sh by (simp add: shape_step)
  have sh1: "shape ?s1 (InL p sl # InL sb sr # c) t"
    using rotate_left_shape[OF sh0] by (simp add: shape_step)
  have par: "parent_of ?s1 x = p"
  proof (cases t)
    case Leaf
    then show ?thesis using rotate_left_nilparent[OF sh0] x by simp
  next
    case (Node l v r)
    then show ?thesis using sh1 x unfolding shape_def by simp
  qed
  have c1: "color_of ?s1 = (?col)(p := RED, sb := BLACK)" by simp
  have step: "delete_case2 (Suc k) x s = Some (delete_case4 x ?s1)"
    using sg x(2) col(1) par c1 ni
    by (simp add: delete_case2.simps[of "Suc k" x s] delete_case3.simps(2)[of k x ?s1] Let_def)
  have top: "c \<noteq> [] \<longrightarrow> ctop sb c \<noteq> p \<and> ctop sb c \<noteq> sb \<and> ctop sb c = ctop p c"
    using ni ctop_in[of c sb] by (cases c) auto
  have "fix_post ?s1 (delete_case4 x ?s1)
     (cleft (InL p sl # InL sb sr # c) @ inorder t @ cright (InL p sl # InL sb sr # c))"
  proof (rule delete_case4_post[OF sh1, where sl = sll and sb = sn and sr = slr])
    show "x = rootp (t_nil ?s1) t" using x by simp
    show "parent_of ?s1 x = fnode (InL p sl)" using par by simp
    show "fsib (InL p sl) = \<langle>sll, sn, slr\<rangle>" using sl by simp
    show "color_of ?s1 sn = BLACK" unfolding c1 using snb ni by simp
    show "\<not> (color_of ?s1 (fnode (InL p sl)) = BLACK \<and> rcol (color_of ?s1) sll = BLACK
        \<and> rcol (color_of ?s1) slr = BLACK)" unfolding c1 using ni by simp
    show "invc (color_of ?s1) t" "invh (color_of ?s1) t" "rcol (color_of ?s1) t = BLACK"
      unfolding c1 using col ni by simp_all
    show "cinvc (color_of ?s1) (InL p sl # InL sb sr # c)"
      unfolding c1 using col ni nb by simp
    show "cinvh (color_of ?s1) (InL p sl # InL sb sr # c) (Suc (bh (color_of ?s1) t))"
      unfolding c1 using col ni bhs pb by simp
    show "color_of ?s1 (ctop (fnode (InL p sl)) (InL sb sr # c)) = BLACK"
      unfolding c1 using col(7) top by (cases "c = []") auto
    show "color_of ?s1 (t_nil ?s1) = BLACK" unfolding c1 using col(8) nl by simp
  qed
  then show ?thesis unfolding step by (simp add: fix_post_def)
qed

lemma del_red_R:
  assumes sh: "shape s (InR \<langle>sl, sb, sr\<rangle> p # c) t"
    and x: "x = rootp (t_nil s) t" "parent_of s x = p"
    and col: "color_of s sb = RED"
      "invc (color_of s) t" "invh (color_of s) t" "rcol (color_of s) t = BLACK"
      "cinvc (color_of s) (InR \<langle>sl, sb, sr\<rangle> p # c)"
      "cinvh (color_of s) (InR \<langle>sl, sb, sr\<rangle> p # c) (Suc (bh (color_of s) t))"
      "color_of s (ctop p c) = BLACK"
      "color_of s (t_nil s) = BLACK"
  shows "\<exists>s'. delete_case2 (Suc k) x s = Some s' \<and> fix_post s s'
     (cleft (InR \<langle>sl, sb, sr\<rangle> p # c) @ inorder t @ cright (InR \<langle>sl, sb, sr\<rangle> p # c))"
proof -
  let ?col = "color_of s"
  note sg = sibling_R[OF sh x]
  note d = shape_distinct[OF sh]
  let ?s0 = "set_color sb BLACK (set_color p RED s)"
  let ?s1 = "rotate_right p ?s0"
  have pb: "?col p = BLACK" and nb: "rcol ?col sl = BLACK" "rcol ?col sr = BLACK"
    using col(1,5) by auto
  have bhs: "bh ?col sl = Suc (bh ?col t)" "bh ?col sr = Suc (bh ?col t)" using col(1,6) by auto
  then obtain sll sn slr where sl: "sr = \<langle>sll, sn, slr\<rangle>" by (cases sr) auto
  have snb: "?col sn = BLACK" using nb sl by simp
  have ni: "p \<notin> set (cleft c)" "p \<notin> set (cright c)" "sb \<notin> set (cleft c)" "sb \<notin> set (cright c)"
    "p \<notin> set_tree t" "sb \<notin> set_tree t" "p \<notin> set_tree sl" "sb \<notin> set_tree sl"
    "p \<notin> set_tree sr" "sb \<notin> set_tree sr" "p \<noteq> sb" "sn \<noteq> p" "sn \<noteq> sb"
    using d sl by auto
  have nl: "t_nil s \<noteq> p" "t_nil s \<noteq> sb" using shape_nil[OF sh] by auto
  have sh0: "shape ?s0 c \<langle>\<langle>sl, sb, sr\<rangle>, p, t\<rangle>" using sh by (simp add: shape_step)
  have sh1: "shape ?s1 (InR sr p # InR sl sb # c) t"
    using rotate_right_shape[OF sh0] by (simp add: shape_step)
  have par: "parent_of ?s1 x = p"
  proof (cases t)
    case Leaf
    then show ?thesis using rotate_right_nilparent[OF sh0] x by simp
  next
    case (Node l v r)
    then show ?thesis using sh1 x unfolding shape_def by simp
  qed
  have c1: "color_of ?s1 = (?col)(p := RED, sb := BLACK)" by simp
  have step: "delete_case2 (Suc k) x s = Some (delete_case4 x ?s1)"
    using sg x(2) col(1) par c1 ni
    by (simp add: delete_case2.simps[of "Suc k" x s] delete_case3.simps(2)[of k x ?s1] Let_def)
  have top: "c \<noteq> [] \<longrightarrow> ctop sb c \<noteq> p \<and> ctop sb c \<noteq> sb \<and> ctop sb c = ctop p c"
    using ni ctop_in[of c sb] by (cases c) auto
  have "fix_post ?s1 (delete_case4 x ?s1)
     (cleft (InR sr p # InR sl sb # c) @ inorder t @ cright (InR sr p # InR sl sb # c))"
  proof (rule delete_case4_post[OF sh1, where sl = sll and sb = sn and sr = slr])
    show "x = rootp (t_nil ?s1) t" using x by simp
    show "parent_of ?s1 x = fnode (InR sr p)" using par by simp
    show "fsib (InR sr p) = \<langle>sll, sn, slr\<rangle>" using sl by simp
    show "color_of ?s1 sn = BLACK" unfolding c1 using snb ni by simp
    show "\<not> (color_of ?s1 (fnode (InR sr p)) = BLACK \<and> rcol (color_of ?s1) sll = BLACK
        \<and> rcol (color_of ?s1) slr = BLACK)" unfolding c1 using ni by simp
    show "invc (color_of ?s1) t" "invh (color_of ?s1) t" "rcol (color_of ?s1) t = BLACK"
      unfolding c1 using col ni by simp_all
    show "cinvc (color_of ?s1) (InR sr p # InR sl sb # c)"
      unfolding c1 using col ni nb by simp
    show "cinvh (color_of ?s1) (InR sr p # InR sl sb # c) (Suc (bh (color_of ?s1) t))"
      unfolding c1 using col ni bhs pb by simp
    show "color_of ?s1 (ctop (fnode (InR sr p)) (InR sl sb # c)) = BLACK"
      unfolding c1 using col(7) top by (cases "c = []") auto
    show "color_of ?s1 (t_nil ?s1) = BLACK" unfolding c1 using col(8) nl by simp
  qed
  then show ?thesis unfolding step by (simp add: fix_post_def)
qed



lemma delete_case1_correct:
  assumes "shape s c t" "x = rootp (t_nil s) t" "parent_of s x = cpar (t_nil s) c"
    "invc (color_of s) t" "invh (color_of s) t" "rcol (color_of s) t = BLACK"
    "cinvc (color_of s) c" "cinvh (color_of s) c (Suc (bh (color_of s) t))"
    "c \<noteq> [] \<longrightarrow> color_of s (ctop x c) = BLACK"
    "color_of s (t_nil s) = BLACK" "length c \<le> fuel"
  shows "\<exists>s'. delete_case1 fuel x s = Some s' \<and> fix_post s s' (cleft c @ inorder t @ cright c)"
  using assms
proof (induction c arbitrary: s t x fuel)
  case Nil
  have "value_of s (t_nil s) = None" using Nil(1) by (simp add: shape_def)
  then have "delete_case1 fuel x s = Some s" using Nil(3) by (simp add: delete_case1.simps)
  moreover have "fix_post s s (cleft [] @ inorder t @ cright [])"
    using Nil by (intro fix_postI[where c = "[]" and u = t]) auto
  ultimately show ?case by blast
next
  case (Cons f c)
  let ?col = "color_of s"
  note sh = Cons.prems(1)
  note d = shape_distinct[OF sh]
  obtain k where k: "fuel = Suc k" "length c \<le> k" using Cons.prems(11) by (cases fuel) auto
  have par: "parent_of s x = fnode f" using Cons.prems(3) by simp
  note fr = shape_frame[OF sh]
  have bhS: "bh ?col (fsib f) = Suc (bh ?col t)" "invh ?col (fsib f)" "invc ?col (fsib f)"
    using Cons.prems(7,8) by auto
  then obtain sl sb sr where S: "fsib f = \<langle>sl, sb, sr\<rangle>" by (cases "fsib f") auto
  note sg = sibling_gen[OF sh Cons.prems(2) par S]
  have top: "color_of s (ctop (fnode f) c) = BLACK" using Cons.prems(9) by simp
  have c1: "delete_case1 fuel x s = delete_case2 (Suc k) x s"
    using fr par unfolding k(1) by (simp add: delete_case1.simps[of "Suc k" x s])
  have io: "cleft c @ inorder (plug [f] t) @ cright c = cleft (f # c) @ inorder t @ cright (f # c)"
    by (cases f; simp)
  show ?case
  proof (cases "?col sb = RED")
    case True
    show ?thesis
    proof (cases f)
      case (InL p S')
      then have f: "f = InL p \<langle>sl, sb, sr\<rangle>" using S by simp
      show ?thesis unfolding c1 f
        using sh Cons.prems(2,4-8,10) par top True unfolding f
        by (intro del_red_L) simp_all
    next
      case (InR S' p)
      then have f: "f = InR \<langle>sl, sb, sr\<rangle> p" using S by simp
      show ?thesis unfolding c1 f
        using sh Cons.prems(2,4-8,10) par top True unfolding f
        by (intro del_red_R) simp_all
    qed
  next
    case False
    then have sbb: "?col sb = BLACK" by simp
    have nph: "?col (leftChild_of s sb) = rcol ?col sl" "?col (rightChild_of s sb) = rcol ?col sr"
      using sg Cons.prems(10) by simp_all
    show ?thesis
    proof (cases "?col (fnode f) = BLACK \<and> rcol ?col sl = BLACK \<and> rcol ?col sr = BLACK")
      case False
      have "delete_case2 (Suc k) x s = Some (delete_case4 x s)"
        using sg(1) par sbb nph False
        by (auto simp add: delete_case2.simps[of "Suc k" x s] delete_case3.simps(2)[of k x s] Let_def)
      moreover have "fix_post s (delete_case4 x s) (cleft (f # c) @ inorder t @ cright (f # c))"
        using Cons.prems(2,4-8,10) par top by (intro delete_case4_post[OF sh _ _ S sbb False]) simp_all
      ultimately show ?thesis unfolding c1 by blast
    next
      case True
      let ?s' = "set_color sb RED s"
      let ?col' = "color_of ?s'"
      have step: "delete_case2 (Suc k) x s = delete_case1 k (fnode f) ?s'"
        using sg(1) par sbb nph True
        by (simp add: delete_case2.simps[of "Suc k" x s] delete_case3.simps(2)[of k x s] Let_def)
      have sh': "shape ?s' c (plug [f] t)" using sh shape_app[of s c "[f]" t] by simp
      have ni: "sb \<noteq> fnode f" "sb \<notin> set_tree t" "sb \<notin> set_tree sl" "sb \<notin> set_tree sr"
        "sb \<notin> set (cleft c)" "sb \<notin> set (cright c)"
        using d S by (cases f; auto)+
      have cs: "invc ?col' (fsib f)" "invh ?col' (fsib f)" "bh ?col' (fsib f) = bh ?col t"
        using bhS True ni sbb unfolding S by auto
      have ct: "invc ?col' t" "invh ?col' t" "bh ?col' t = bh ?col t"
        using Cons.prems(4,5) ni by simp_all
      have "\<exists>s''. delete_case1 k (fnode f) ?s' = Some s''
          \<and> fix_post ?s' s'' (cleft c @ inorder (plug [f] t) @ cright c)"
      proof (rule Cons.IH[OF sh'])
        show "fnode f = rootp (t_nil ?s') (plug [f] t)" by (cases f; simp)
        show "parent_of ?s' (fnode f) = cpar (t_nil ?s') c" using fr by simp
        show "invc ?col' (plug [f] t)" unfolding invc_plug using cs ct True ni by simp
        show "invh ?col' (plug [f] t)" unfolding invh_plug using cs ct by simp
        show "rcol ?col' (plug [f] t) = BLACK" using True ni by simp
        show "cinvc ?col' c" using Cons.prems(7) ni by simp
        have "bh ?col' (plug [f] t) = Suc (bh ?col t)"
          using bh_plug1[of ?col' f t] cs ct True ni by simp
        then show "cinvh ?col' c (Suc (bh ?col' (plug [f] t)))"
          using Cons.prems(8) True ni by simp
        show "c \<noteq> [] \<longrightarrow> ?col' (ctop (fnode f) c) = BLACK"
          using top ni ctop_in[of c "fnode f"] by auto
        show "?col' (t_nil ?s') = BLACK" using Cons.prems(10) sg(7) by simp
        show "length c \<le> k" by fact
      qed
      then show ?thesis unfolding c1 step io by (auto simp: fix_post_def)
    qed
  qed
qed

lemma ascend_correct:
  assumes "shape s c t" "t \<noteq> Leaf" "x = rootp (t_nil s) t" "length c < fuel"
  shows "ascend fuel s x = Some (case cright c of [] \<Rightarrow> t_nil s | b # _ \<Rightarrow> b)"
  using assms
proof (induction c arbitrary: t x fuel)
  case Nil
  obtain k where k: "fuel = Suc k" using Nil(4) by (cases fuel) auto
  show ?case using shape_root_parent[OF Nil(1,2)] Nil(3) by (simp add: k)
next
  case (Cons f c)
  obtain k where k: "fuel = Suc k" "length c < k" using Cons.prems(4) by (cases fuel) auto
  note sp = shape_parent[OF Cons.prems(1,2)]
  have xin: "x \<in> set_tree t" using Cons.prems(2,3) rootp_in by auto
  show ?case
  proof (cases f)
    case (InL p R)
    have "rightChild_of s p = rootp (t_nil s) R" using Cons.prems(1) unfolding InL shape_def by simp
    moreover have "x \<notin> set_tree R" "x \<noteq> t_nil s"
      using shape_distinct[OF Cons.prems(1)] shape_nil[OF Cons.prems(1)] xin unfolding InL by auto
    ultimately have "x \<noteq> rightChild_of s p" by (cases R) auto
    then show ?thesis using sp Cons.prems(3) InL by (simp add: k)
  next
    case (InR L p)
    have rc: "rightChild_of s p = x" using Cons.prems(1,3) unfolding InR shape_def by simp
    have sh: "shape s c \<langle>L, p, t\<rangle>" using Cons.prems(1) unfolding InR by (simp add: shape_step)
    have "ascend k s p = Some (case cright c of [] \<Rightarrow> t_nil s | b # _ \<Rightarrow> b)"
      using k by (intro Cons.IH[OF sh]) simp_all
    then show ?thesis using sp Cons.prems(3) InR rc by (simp add: k)
  qed
qed

lemma advance_correct:
  assumes "shape s c \<langle>l, a, r\<rangle>" "height r < fuel" "length c < fuel"
  shows "advance fuel s a = Some (case inorder r @ cright c of [] \<Rightarrow> t_nil s | b # _ \<Rightarrow> b)"
proof (cases r)
  case Leaf
  have "value_of s (rightChild_of s a) = None" using shape_node[OF assms(1)] Leaf by simp
  then show ?thesis using ascend_correct[OF assms(1), of a fuel] assms(3) Leaf
    by (simp add: advance_def)
next
  case (Node r1 b r2)
  have sh: "shape s (InR l a # c) r" using assms(1) by (simp add: shape_step)
  have "descend_left fuel s (rootp (t_nil s) r) = Some (hd (inorder r))"
    using sh Node assms(2) by (intro descend_left_correct) auto
  moreover have "value_of s (rightChild_of s a) \<noteq> None" "rightChild_of s a = rootp (t_nil s) r"
    using shape_node[OF assms(1)] shape_real[OF sh] Node by auto
  moreover have "inorder r \<noteq> []" using Node by simp
  ultimately show ?thesis by (cases "inorder r") (simp_all add: advance_def)
qed

lemma in_tree_plug: "a \<in> set_tree t \<Longrightarrow> \<exists>c l r. t = plug c \<langle>l, a, r\<rangle>"
proof (induction t)
  case Leaf
  then show ?case by simp
next
  case (Node l b r)
  consider "a = b" | "a \<in> set_tree l" | "a \<in> set_tree r" using Node.prems by auto
  then show ?case
  proof cases
    case 1
    then show ?thesis by (intro exI[of _ "[]"]) auto
  next
    case 2
    then obtain c l' r' where "l = plug c \<langle>l', a, r'\<rangle>" using Node.IH(1) by blast
    then have "\<langle>l, b, r\<rangle> = plug (c @ [InL b r]) \<langle>l', a, r'\<rangle>" by (simp add: plug_append)
    then show ?thesis by blast
  next
    case 3
    then obtain c l' r' where "r = plug c \<langle>l', a, r'\<rangle>" using Node.IH(2) by blast
    then have "\<langle>l, b, r\<rangle> = plug (c @ [InR l b]) \<langle>l', a, r'\<rangle>" by (simp add: plug_append)
    then show ?thesis by blast
  qed
qed

lemma distinct_split:
  "distinct (xs @ a # ys) \<Longrightarrow> xs @ a # ys = xs' @ a # ys' \<Longrightarrow> xs = xs' \<and> ys = ys'"
proof (induction xs arbitrary: xs')
  case Nil
  then show ?case by (cases xs') auto
next
  case (Cons x xs)
  show ?case
  proof (cases xs')
    case Nil
    then show ?thesis using Cons.prems by auto
  next
    case (Cons y zs)
    have d: "distinct (xs @ a # ys)" using Cons.prems(1) by simp
    have e: "x = y" "xs @ a # ys = zs @ a # ys'" using Cons.prems(2) Cons by simp_all
    show ?thesis using Cons.IH[OF d e(2)] e(1) Cons by simp
  qed
qed

lemma advance_inorder:
  assumes "shape s [] t" "inorder t = xs @ a # ys" "height t < fuel"
  shows "advance fuel s a = Some (case ys of [] \<Rightarrow> t_nil s | b # _ \<Rightarrow> b)"
proof -
  have "a \<in> set_tree t" using assms(2) by (simp flip: set_inorder)
  then obtain c l r where t: "t = plug c \<langle>l, a, r\<rangle>" using in_tree_plug by blast
  have sh: "shape s c \<langle>l, a, r\<rangle>" using assms(1) unfolding t by (simp add: shape_plug)
  have "inorder t = (cleft c @ inorder l) @ a # (inorder r @ cright c)"
    unfolding t by (simp add: inorder_plug)
  moreover have "distinct (inorder t)" using shape_distinct[OF assms(1)] by simp
  ultimately have ys: "ys = inorder r @ cright c"
    using distinct_split[of xs a ys "cleft c @ inorder l" "inorder r @ cright c"] assms(2) by simp
  have h: "height \<langle>l, a, r\<rangle> + length c \<le> height t" unfolding t by (rule height_plug)
  then have "height r < fuel" "length c < fuel" using assms(3) by auto
  then show ?thesis unfolding ys by (rule advance_correct[OF sh])
qed

lemma shape_value:
  assumes "shape s [] t" "a \<in> set_tree t"
  shows "\<exists>v. value_of s a = Some v \<and> key_of s a = v" "a \<noteq> t_nil s"
proof -
  obtain c l r where t: "t = plug c \<langle>l, a, r\<rangle>" using in_tree_plug[OF assms(2)] by blast
  have sh: "shape s c \<langle>l, a, r\<rangle>" using assms(1) unfolding t by (simp add: shape_plug)
  show "\<exists>v. value_of s a = Some v \<and> key_of s a = v" "a \<noteq> t_nil s"
    using shape_node[OF sh] by (auto simp: key_of_def not_None_eq)
qed

lemma get_begin_correct:
  assumes "shape s [] t" "height t < fuel"
  shows "get_begin fuel s = Some (case inorder t of [] \<Rightarrow> t_nil s | b # _ \<Rightarrow> b)"
proof (cases t)
  case Leaf
  obtain k where k: "fuel = Suc k" using assms(2) by (cases fuel) auto
  show ?thesis using assms(1) Leaf by (simp add: get_begin_def shape_def k)
next
  case (Node l a r)
  have "descend_left fuel s (rootp (t_nil s) t) = Some (hd (inorder t))"
    using assms Node by (intro descend_left_correct[OF assms(1)]) auto
  moreover have "t_root s = rootp (t_nil s) t" using assms(1) by (simp add: shape_def)
  moreover have "inorder t \<noteq> []" using Node by simp
  ultimately show ?thesis by (cases "inorder t") (simp_all add: get_begin_def)
qed

lemma lower_bound_loop_correct:
  assumes "shape s [] t" "inorder t = xs @ ys" "length ys + height t < fuel"
  shows "lower_bound_loop fuel val s (case ys of [] \<Rightarrow> t_nil s | b # _ \<Rightarrow> b)
     = Some (case List.find (\<lambda>a. \<not> key_of s a < val) ys of None \<Rightarrow> t_nil s | Some b \<Rightarrow> b)"
  using assms(2,3)
proof (induction ys arbitrary: xs fuel)
  case Nil
  obtain k where k: "fuel = Suc k" using Nil(2) by (cases fuel) auto
  show ?case by (simp add: k get_end_def)
next
  case (Cons b ys)
  obtain k where k: "fuel = Suc k" "length ys + height t < k" using Cons.prems(2) by (cases fuel) auto
  have "b \<in> set_tree t" using Cons.prems(1) by (simp flip: set_inorder)
  from shape_value[OF assms(1) this] obtain v where v: "value_of s b = Some v" "key_of s b = v"
    and bn: "b \<noteq> t_nil s" by blast
  show ?case
  proof (cases "v < val")
    case True
    have adv: "advance (Suc k) s b = Some (case ys of [] \<Rightarrow> t_nil s | b # _ \<Rightarrow> b)"
      using Cons.prems(1) k by (intro advance_inorder[OF assms(1), of xs]) simp_all
    have "lower_bound_loop k val s (case ys of [] \<Rightarrow> t_nil s | b # _ \<Rightarrow> b)
      = Some (case List.find (\<lambda>a. \<not> key_of s a < val) ys of None \<Rightarrow> t_nil s | Some b \<Rightarrow> b)"
      using Cons.prems(1) k by (intro Cons.IH[of "xs @ [b]"]) simp_all
    then show ?thesis using v bn True adv by (simp add: k(1) get_end_def)
  next
    case False
    then show ?thesis using v bn by (simp add: k(1) get_end_def)
  qed
qed

lemma upper_bound_loop_correct:
  assumes "shape s [] t" "inorder t = xs @ ys" "length ys + height t < fuel"
  shows "upper_bound_loop fuel val s (case ys of [] \<Rightarrow> t_nil s | b # _ \<Rightarrow> b)
     = Some (case List.find (\<lambda>a. val < key_of s a) ys of None \<Rightarrow> t_nil s | Some b \<Rightarrow> b)"
  using assms(2,3)
proof (induction ys arbitrary: xs fuel)
  case Nil
  obtain k where k: "fuel = Suc k" using Nil(2) by (cases fuel) auto
  show ?case by (simp add: k get_end_def)
next
  case (Cons b ys)
  obtain k where k: "fuel = Suc k" "length ys + height t < k" using Cons.prems(2) by (cases fuel) auto
  have "b \<in> set_tree t" using Cons.prems(1) by (simp flip: set_inorder)
  from shape_value[OF assms(1) this] obtain v where v: "value_of s b = Some v" "key_of s b = v"
    and bn: "b \<noteq> t_nil s" by blast
  show ?case
  proof (cases "val < v")
    case False
    have adv: "advance (Suc k) s b = Some (case ys of [] \<Rightarrow> t_nil s | b # _ \<Rightarrow> b)"
      using Cons.prems(1) k by (intro advance_inorder[OF assms(1), of xs]) simp_all
    have "upper_bound_loop k val s (case ys of [] \<Rightarrow> t_nil s | b # _ \<Rightarrow> b)
      = Some (case List.find (\<lambda>a. val < key_of s a) ys of None \<Rightarrow> t_nil s | Some b \<Rightarrow> b)"
      using Cons.prems(1) k by (intro Cons.IH[of "xs @ [b]"]) simp_all
    then show ?thesis using v bn False adv by (simp add: k(1) get_end_def)
  next
    case True
    then show ?thesis using v bn by (simp add: k(1) get_end_def)
  qed
qed

lemma lower_bound_correct:
  assumes "shape s [] t" "size t + height t < fuel"
  shows "lower_bound fuel val s
     = Some (case List.find (\<lambda>a. \<not> key_of s a < val) (inorder t) of None \<Rightarrow> t_nil s | Some b \<Rightarrow> b)"
  using get_begin_correct[OF assms(1), of fuel] lower_bound_loop_correct[OF assms(1), of "[]" "inorder t" fuel val]
    assms(2)
  by (simp add: lower_bound_def)

lemma upper_bound_correct:
  assumes "shape s [] t" "size t + height t < fuel"
  shows "upper_bound fuel val s
     = Some (case List.find (\<lambda>a. val < key_of s a) (inorder t) of None \<Rightarrow> t_nil s | Some b \<Rightarrow> b)"
  using get_begin_correct[OF assms(1), of fuel] upper_bound_loop_correct[OF assms(1), of "[]" "inorder t" fuel val]
    assms(2)
  by (simp add: upper_bound_def)

lemma sorted_keys_inj:
  "sorted_wrt (<) (map f xs) \<Longrightarrow> a \<in> set xs \<Longrightarrow> b \<in> set xs \<Longrightarrow> f a = f b \<Longrightarrow> a = (b::nat)"
  for f :: "nat \<Rightarrow> 'a::linorder"
proof (induction xs)
  case Nil
  then show ?case by simp
next
  case (Cons x xs)
  then show ?case by (auto simp: less_le)
qed

lemma inorder_single: "inorder t = [a] \<Longrightarrow> t = \<langle>Leaf, a, Leaf\<rangle>"
proof (cases t)
  case Leaf
  then show "inorder t = [a] \<Longrightarrow> ?thesis" by simp
next
  case (Node l b r)
  then show "inorder t = [a] \<Longrightarrow> ?thesis"
    by (cases l; cases r; simp add: append_eq_Cons_conv)
qed

lemma nil_upd [simp]:
  "value_of (s\<lparr>t_nil := x\<rparr>) = value_of s"
  "color_of (s\<lparr>t_nil := x\<rparr>) = color_of s"
  "parent_of (s\<lparr>t_nil := x\<rparr>) = parent_of s"
  "leftChild_of (s\<lparr>t_nil := x\<rparr>) = leftChild_of s"
  "rightChild_of (s\<lparr>t_nil := x\<rparr>) = rightChild_of s"
  by (simp_all add: fun_eq_iff value_of_def color_of_def parent_of_def leftChild_of_def rightChild_of_def)

lemma ctor_fields:
  "t_root (RBTree_ctor mem) = Suc 0" "t_nil (RBTree_ctor mem) = Suc 0"
  "t_size (RBTree_ctor mem) = 0" "t_alloc (RBTree_ctor mem) = 2"
  "value_of (RBTree_ctor mem) (Suc 0) = None" "color_of (RBTree_ctor mem) (Suc 0) = BLACK"
  "leftChild_of (RBTree_ctor mem) (Suc 0) = Suc 0" "rightChild_of (RBTree_ctor mem) (Suc 0) = Suc 0"
  "parent_of (RBTree_ctor mem) (Suc 0) = Suc 0"
  by (simp_all add: RBTree_ctor_def make_nil_def allocate_def Let_def)

lemma valid_ctor: "valid (RBTree_ctor mem) Leaf"
  by (simp add: ctor_fields valid_def wf_def shape_def NULL_def)

text \<open>
  Without a hint, inserting a value whose key is already held by a node of a valid tree
  returns that node with the flag false; the root, the sentinel, the size and every cell of
  the store but the one allocated for the rejected node are as before, and the store holds
  the same tree.
\<close>

theorem insert_existing_key:
  assumes "valid s t" and "t_size s < fuel" and "a \<in> set_tree t" and "key_of s a = v"
  shows "\<exists>s'. insert_rb fuel v NULL s = Some (s', a, False)
           \<and> valid s' t \<and> t_root s' = t_root s \<and> t_nil s' = t_nil s
           \<and> size_rb s' = size_rb s
           \<and> (\<forall>p. p \<noteq> t_alloc s \<longrightarrow> t_heap s' p = t_heap s p)"
proof -
  let ?s1 = "set_value (t_alloc s) (Some v) (s\<lparr>t_alloc := Suc (t_alloc s)\<rparr>)"
  have mem: "v \<in> key_of s ` set_tree t" using assms(3,4) by auto
  from insert_rb_dup(1)[OF assms(1,2) mem]
  obtain r where r: "insert_rb fuel v NULL s = Some (?s1, r, False)" "r \<in> set_tree t" "key_of s r = v"
    by auto
  have "sorted_wrt (<) (map (key_of s) (inorder t))" using assms(1) by (simp add: valid_def)
  then have "r = a" using r(2,3) assms(3,4) by (intro sorted_keys_inj[of "key_of s" "inorder t"]) simp_all
  moreover have "valid ?s1 t" by (rule insert_rb_dup(2)[OF assms(1,2) mem])
  moreover have "\<forall>p. p \<noteq> t_alloc s \<longrightarrow> t_heap ?s1 p = t_heap s p" by (simp add: set_value_def)
  ultimately show ?thesis using r(1) by (intro exI[of _ ?s1]) (simp add: size_rb_def)
qed

theorem insert_existing_key_witness:
  "\<exists>s. insert_rb 3 (5::nat) NULL (RBTree_ctor blank) = Some (s, 2, True)
      \<and> valid s \<langle>Leaf, 2, Leaf\<rangle> \<and> t_size s < 3 \<and> 2 \<in> set_tree \<langle>Leaf, 2::nat, Leaf\<rangle> \<and> key_of s 2 = 5
      \<and> (\<exists>s'. insert_rb 3 5 NULL s = Some (s', 2, False) \<and> valid s' \<langle>Leaf, 2, Leaf\<rangle> \<and> size_rb s' = 1)"
proof -
  have v0: "valid (RBTree_ctor blank :: nat RBTree) Leaf" by (rule valid_ctor)
  have a0: "t_alloc (RBTree_ctor blank :: nat RBTree) = 2" "t_size (RBTree_ctor blank :: nat RBTree) = 0"
    by (simp_all add: ctor_fields)
  from insert_rb_new[OF v0, of 3 5] a0
  obtain s t' xs ys where s: "insert_rb 3 (5::nat) NULL (RBTree_ctor blank) = Some (s, 2, True)"
    "valid s t'" "inorder (Leaf :: nat tree) = xs @ ys" "inorder t' = xs @ 2 # ys"
    "value_of s = (value_of (RBTree_ctor blank))(2 := Some 5)" "t_size s = Suc 0"
    by (auto simp: key_of_def)
  have "inorder t' = [2]" using s(3,4) by simp
  then have t': "t' = \<langle>Leaf, 2, Leaf\<rangle>" by (rule inorder_single)
  have k: "key_of s 2 = 5" using s(5) by (simp add: key_of_def)
  have v: "valid s \<langle>Leaf, 2, Leaf\<rangle>" using s(2) t' by simp
  from insert_existing_key[OF v, of 3 2 5] s(6) k
  obtain s' where "insert_rb 3 5 NULL s = Some (s', 2, False)" "valid s' \<langle>Leaf, 2, Leaf\<rangle>" "size_rb s' = size_rb s"
    by auto
  then show ?thesis using s(1,6) v k by (intro exI[of _ s]) (auto simp: size_rb_def)
qed

text \<open>
  The tree built from 10, 5, 15, 7, on which the two hinted insertions below run, is a
  valid red-black tree: the node at address 2 holds 10, its children at 3 and 4 hold 5 and
  15, and the node at address 5, the right child of 3, holds 7.
\<close>

lemma hint_start_valid:
  "(case insert_range 10 [10, 5, 15, 7::nat] (RBTree_ctor blank) of
      None \<Rightarrow> False
    | Some s \<Rightarrow> valid s \<langle>\<langle>Leaf, 3, \<langle>Leaf, 5, Leaf\<rangle>\<rangle>, 2, \<langle>Leaf, 4, Leaf\<rangle>\<rangle>)"
  by code_simp

text \<open>
  C7. Inserting a key that is already present, with a hint: in the tree built from
  10, 5, 15, 7 the node at address 3 holds the key 5 and the node at address 5 holds the
  key 7. Inserting 5 with the node holding 7 as hint does not return the node holding 5
  with the flag false: the descent starts below the existing key, a second node holding 5
  is linked (address 6), the flag is true and the size grows from 4 to 5. Without the hint
  the same insertion returns the node at address 3 with the flag false and the size stays 4.
\<close>

theorem hint_inserts_duplicate:
  "(case insert_range 10 [10, 5, 15, 7] (RBTree_ctor blank) of
      None \<Rightarrow> None
    | Some s \<Rightarrow>
        (case (insert_rb 10 5 5 s, insert_rb 10 5 NULL s) of
           (Some (s1, r1, b1), Some (s2, r2, b2)) \<Rightarrow>
             Some (value_of s 3, value_of s 5, size_rb s, (r1, b1, size_rb s1, keys_of 10 s1),
                   (r2, b2, size_rb s2, keys_of 10 s2))
         | _ \<Rightarrow> None))
   = Some (Some 5, Some 7, 4, (6, True, 5, Some [5, 5, 7, 10, 15]),
           (3, False, 4, Some [5, 7, 10, 15::nat]))"
  by code_simp

text \<open>
  C3. A hint that is not next to the insertion point: in the tree built from 10, 5, 15, 7
  the node at address 5 holds the key 7; inserting 3 with that node as hint links the new
  node under it, and the in-order sequence of the keys is no longer increasing. Without the
  hint the same insertion keeps the order.
\<close>

theorem hint_breaks_order:
  "(case insert_range 10 [10, 5, 15, 7] (RBTree_ctor blank) of
      None \<Rightarrow> None
    | Some s \<Rightarrow>
        (case (insert_rb 10 3 5 s, insert_rb 10 3 NULL s) of
           (Some (s1, r1), Some (s2, r2)) \<Rightarrow>
             Some (value_of s 5, keys_of 10 s, keys_of 10 s1, keys_of 10 s2)
         | _ \<Rightarrow> None))
   = Some (Some 7, Some [5, 7, 10, 15], Some [5, 3, 7, 10, 15], Some [3, 5, 7, 10, 15::nat])"
  by code_simp

text \<open>
  C2. A sequence of insertions from the empty tree after which the in-order traversal is
  not increasing: 10, 5, 15, 7 without a hint, then 1 with the node holding 7 (address 5)
  as hint. The new node is linked below the node holding 7, the in-order sequence of the
  keys becomes 5, 1, 7, 10, 15, the leftmost node (address 3) holds 5 and not the least key,
  and the search for the stored key 5 ends at the sentinel (address 1).
\<close>

theorem hinted_insert_unsorted_traversal:
  "(case insert_range 10 [10, 5, 15, 7::nat] (RBTree_ctor blank) of
      None \<Rightarrow> None
    | Some s \<Rightarrow>
        (case insert_rb 10 1 5 s of
           None \<Rightarrow> None
         | Some (s1, r1, b1) \<Rightarrow>
             Some (value_of s 5, keys_of 10 s, (r1, b1), keys_of 10 s1, get_begin 10 s1,
                   find_rb 10 5 s1, t_nil s1)))
   = Some (Some 7, Some [5, 7, 10, 15], (6, True), Some [5, 1, 7, 10, 15], Some 3,
           Some 1, 1)"
  by code_simp

text \<open>
  The tree built from 10, 5, 15, 12 is a valid red-black tree: the node at address 2 holds
  10, its children at 3 and 4 hold 5 and 15, and the node at address 5, the left child of
  4, holds 12.
\<close>

lemma hint_right_start_valid:
  "(case insert_range 10 [10, 5, 15, 12::nat] (RBTree_ctor blank) of
      None \<Rightarrow> False
    | Some s \<Rightarrow> valid s \<langle>\<langle>Leaf, 3, Leaf\<rangle>, 2, \<langle>\<langle>Leaf, 5, Leaf\<rangle>, 4, Leaf\<rangle>\<rangle>)"
  by code_simp

text \<open>
  C4. The sentinel's parent after a hinted insertion: in the tree built from 10, 5, 15, 12
  the sentinel's parent is the node holding 15 (address 4). Inserting 20 with the node
  holding 12 (address 5) as hint links the new node (address 6) below the node holding 12;
  the in-order sequence of the keys is 5, 10, 12, 20, 15 and the sentinel's parent is still
  the node holding 15, not the node holding the greatest key 20. Without the hint the
  sentinel's parent is the new node, which holds 20.
\<close>

theorem hinted_insert_sentinel_parent:
  "(case insert_range 10 [10, 5, 15, 12] (RBTree_ctor blank) of
      None \<Rightarrow> None
    | Some s \<Rightarrow>
        (case (insert_rb 10 20 5 s, insert_rb 10 20 NULL s) of
           (Some (s1, r1, b1), Some (s2, r2, b2)) \<Rightarrow>
             Some (value_of s 5, keys_of 10 s, parent_of s (t_nil s),
                   (r1, b1, keys_of 10 s1, parent_of s1 (t_nil s1),
                    value_of s1 (parent_of s1 (t_nil s1))),
                   (r2, b2, keys_of 10 s2, parent_of s2 (t_nil s2),
                    value_of s2 (parent_of s2 (t_nil s2))))
         | _ \<Rightarrow> None))
   = Some (Some 12, Some [5, 10, 12, 15], 4,
           (6, True, Some [5, 10, 12, 20, 15], 4, Some 15),
           (6, True, Some [5, 10, 12, 15, 20], 6, Some (20::nat)))"
  by code_simp

lemma valid_shape: "valid s t \<Longrightarrow> shape s [] t"
  by (simp add: valid_def wf_def)

text \<open>
  The tree built from 1, 3, 5, 7: the node at address 3 (key 3) is the root, its children are
  the nodes at 2 (key 1) and 4 (key 5), and the node at 5 (key 7) is the right child of 4;
  the sentinel is at address 1.
\<close>

lemma bounds_example:
  "(case insert_range 10 [1, 3, 5, 7::nat] (RBTree_ctor blank) of
      None \<Rightarrow> False
    | Some s \<Rightarrow> valid s \<langle>\<langle>Leaf, 2, Leaf\<rangle>, 3, \<langle>Leaf, 4, \<langle>Leaf, 5, Leaf\<rangle>\<rangle>\<rangle>
        \<and> map (key_of s) [2, 3, 4, 5] = [1, 3, 5, 7] \<and> t_nil s = 1)"
  by code_simp

text \<open>
  C9. In a valid tree, with enough fuel for the scan, \<open>lower_bound\<close> returns the first node
  of the in-order sequence whose key is not less than the value, \<open>upper_bound\<close> the first
  node whose key is greater than the value, and each returns the sentinel when there is no
  such node.
\<close>

theorem bounds_first_in_order:
  assumes "valid s t" and "size t + height t < fuel"
  shows "lower_bound fuel val s
       = Some (case List.find (\<lambda>a. \<not> key_of s a < val) (inorder t) of
                 None \<Rightarrow> t_nil s | Some b \<Rightarrow> b)
     \<and> upper_bound fuel val s
       = Some (case List.find (\<lambda>a. val < key_of s a) (inorder t) of
                 None \<Rightarrow> t_nil s | Some b \<Rightarrow> b)"
  using lower_bound_correct[OF valid_shape[OF assms(1)] assms(2)]
    upper_bound_correct[OF valid_shape[OF assms(1)] assms(2)]
  by simp

theorem bounds_first_in_order_witness:
  "\<exists>s. insert_range 10 [1, 3, 5, 7::nat] (RBTree_ctor blank) = Some s
     \<and> valid s \<langle>\<langle>Leaf, 2, Leaf\<rangle>, 3, \<langle>Leaf, 4, \<langle>Leaf, 5, Leaf\<rangle>\<rangle>\<rangle>
     \<and> map (key_of s) [2, 3, 4, 5] = [1, 3, 5, 7]
     \<and> lower_bound 10 4 s = Some 4 \<and> upper_bound 10 5 s = Some 5
     \<and> lower_bound 10 5 s = Some 4 \<and> upper_bound 10 7 s = Some (t_nil s)"
proof -
  let ?T = "\<langle>\<langle>Leaf, 2, Leaf\<rangle>, 3, \<langle>Leaf, 4, \<langle>Leaf, 5::nat, Leaf\<rangle>\<rangle>\<rangle>"
  obtain s where s: "insert_range 10 [1, 3, 5, 7::nat] (RBTree_ctor blank) = Some s"
    "valid s ?T" "map (key_of s) [2, 3, 4, 5] = [1, 3, 5, 7]"
    using bounds_example by (auto split: option.splits)
  have f: "size ?T + height ?T < 10" by simp
  have "lower_bound 10 4 s = Some 4" "upper_bound 10 5 s = Some 5"
     "lower_bound 10 5 s = Some 4" "upper_bound 10 7 s = Some (t_nil s)"
    using bounds_first_in_order[OF s(2) f, of 4] bounds_first_in_order[OF s(2) f, of 5]
      bounds_first_in_order[OF s(2) f, of 7] s(3)
    by simp_all
  then show ?thesis using s by (intro exI[of _ s]) simp
qed

text \<open>
  C10. In a valid tree that holds no node with the given key, \<open>lower_bound\<close> and
  \<open>upper_bound\<close> return the same node.
\<close>

theorem bounds_agree_on_absent_key:
  assumes "valid s t" and "size t + height t < fuel" and "val \<notin> key_of s ` set_tree t"
  shows "\<exists>n. lower_bound fuel val s = Some n \<and> upper_bound fuel val s = Some n"
proof -
  have "\<And>a. a \<in> set (inorder t) \<Longrightarrow> (\<not> key_of s a < val) = (val < key_of s a)"
    using assms(3) by force
  then have "List.find (\<lambda>a. \<not> key_of s a < val) (inorder t)
      = List.find (\<lambda>a. val < key_of s a) (inorder t)"
    by (intro find_cong) simp_all
  then show ?thesis
    using lower_bound_correct[OF valid_shape[OF assms(1)] assms(2), of val]
      upper_bound_correct[OF valid_shape[OF assms(1)] assms(2), of val]
    by simp
qed

theorem bounds_agree_on_absent_key_witness:
  "\<exists>s n. insert_range 10 [1, 3, 5, 7::nat] (RBTree_ctor blank) = Some s
     \<and> valid s \<langle>\<langle>Leaf, 2, Leaf\<rangle>, 3, \<langle>Leaf, 4, \<langle>Leaf, 5, Leaf\<rangle>\<rangle>\<rangle>
     \<and> 4 \<notin> key_of s ` set_tree \<langle>\<langle>Leaf, 2, Leaf\<rangle>, 3, \<langle>Leaf, 4, \<langle>Leaf, 5, Leaf\<rangle>\<rangle>\<rangle>
     \<and> lower_bound 10 4 s = Some n \<and> upper_bound 10 4 s = Some n"
proof -
  let ?T = "\<langle>\<langle>Leaf, 2, Leaf\<rangle>, 3, \<langle>Leaf, 4, \<langle>Leaf, 5::nat, Leaf\<rangle>\<rangle>\<rangle>"
  obtain s where s: "insert_range 10 [1, 3, 5, 7::nat] (RBTree_ctor blank) = Some s"
    "valid s ?T" "map (key_of s) [2, 3, 4, 5] = [1, 3, 5, 7]"
    using bounds_example by (auto split: option.splits)
  have f: "size ?T + height ?T < 10" by simp
  have k: "4 \<notin> key_of s ` set_tree ?T" using s(3) by simp
  from bounds_agree_on_absent_key[OF s(2) f k]
  obtain n where "lower_bound 10 4 s = Some n" "upper_bound 10 4 s = Some n" by auto
  then show ?thesis using s(1,2) k by (intro exI[of _ s] exI[of _ n]) simp
qed

end
